theory Spec2Isabelle
  imports Main
begin

section \<open>Data model\<close>

text \<open>
  An event reference as declared in an event's \<open>auth_events\<close>: the identifier of the
  referenced event and its content hash. Only the identifier is read by
  \<^verbatim>\<open>federationtypes.go\<close>.
\<close>

record EventReference =
  ref_EventID :: string
  ref_EventSHA256 :: string

text \<open>
  The type \<^verbatim>\<open>Event\<close> is declared outside \<^verbatim>\<open>federationtypes.go\<close>. The file reads an
  event only through four accessors, which are the fields of the record:
  \<^verbatim>\<open>EventID()\<close>, \<^verbatim>\<open>Type()\<close>, \<^verbatim>\<open>StateKey()\<close> (a \<^verbatim>\<open>*string\<close>, \<open>None\<close> for
  \<^verbatim>\<open>nil\<close>) and \<^verbatim>\<open>AuthEvents()\<close>.
\<close>

record Event =
  EventID :: string
  Type :: string
  StateKey :: "string option"
  AuthEvents :: "EventReference list"

text \<open>
  \<^verbatim>\<open>RespState\<close>: the field \<^verbatim>\<open>AuthEvents\<close> (JSON key \<^verbatim>\<open>auth_chain\<close>) is named
  \<open>AuthChain\<close> here, since the accessor of \<open>Event\<close> already has that name.
\<close>

record RespState =
  StateEvents :: "Event list"
  AuthChain :: "Event list"

text \<open>
  The errors of the file. In Go they are built by \<^verbatim>\<open>fmt.Errorf\<close>; each format string is
  one constructor, with the formatted arguments in the order of the call. An error
  handed back by a collaborator (the signature verifier, the authorization-set builder)
  and returned unchanged is \<open>Propagated\<close>, with the collaborator's error value.
\<close>

datatype error =
    MissingAuthEvent string string
  | AuthEventCycle string
  | NotStateEvent string
  | DuplicateStateKey string string
  | NotAuthorized string string
  | NotAuthorizedBySuppliedState string string
  | InvalidInviteLength nat
  | Propagated string

section \<open>\<^verbatim>\<open>RespState.Events\<close>\<close>

text \<open>
  \<^verbatim>\<open>eventsByID\<close> maps an identifier to a pointer into one of the two slices of the
  response, \<^verbatim>\<open>&r.StateEvents[i]\<close> or \<^verbatim>\<open>&r.AuthEvents[i]\<close>; the marks \<^verbatim>\<open>queued\<close> and
  \<^verbatim>\<open>outputted\<close> are keyed by these pointers. A pointer is the slice and the position.
\<close>

datatype ptr = StateEventsAt nat | AuthEventsAt nat

fun deref :: "RespState \<Rightarrow> ptr \<Rightarrow> Event" where
  "deref r (StateEventsAt i) = StateEvents r ! i"
| "deref r (AuthEventsAt i) = AuthChain r ! i"

type_synonym index = "string \<rightharpoonup> ptr"

text \<open>
  One of the two collecting loops: \<^verbatim>\<open>for i := range es { m[es[i].EventID()] = &es[i] }\<close>.
  A later position overwrites an earlier one with the same identifier.
\<close>

definition collect :: "(nat \<Rightarrow> ptr) \<Rightarrow> Event list \<Rightarrow> index \<Rightarrow> index" where
  "collect at es m = fold (\<lambda>i m. m(EventID (es ! i) \<mapsto> at i)) [0..<length es] m"

definition eventsByID :: "RespState \<Rightarrow> index" where
  "eventsByID r =
     collect AuthEventsAt (AuthChain r) (collect StateEventsAt (StateEvents r) Map.empty)"

record order_state =
  queued :: "ptr set"
  outputted :: "ptr set"
  result :: "Event list"
  stack :: "ptr list"

text \<open>
  The scan over \<^verbatim>\<open>top.AuthEvents()\<close> (the inner \<^verbatim>\<open>for _, ref := range\<close>) ends in one of
  three ways: an error is returned, an authorization event is pushed and the outer loop
  restarts (\<^verbatim>\<open>continue LoopProcessTopOfStack\<close>), or the references are exhausted and the
  top of the stack is appended to the result.
\<close>

datatype scan = Fail error | Push ptr | Emit

fun scanAuthEvents :: "index \<Rightarrow> order_state \<Rightarrow> string \<Rightarrow> EventReference list \<Rightarrow> scan" where
  "scanAuthEvents idx s topID [] = Emit"
| "scanAuthEvents idx s topID (ref # refs) =
     (case idx (ref_EventID ref) of
        None \<Rightarrow> Fail (MissingAuthEvent (ref_EventID ref) topID)
      | Some authEvent \<Rightarrow>
          if authEvent \<in> outputted s then scanAuthEvents idx s topID refs
          else if authEvent \<in> queued s then Fail (AuthEventCycle (ref_EventID ref))
          else Push authEvent)"

definition slots :: "RespState \<Rightarrow> ptr set" where
  "slots r = StateEventsAt ` {..<length (StateEvents r)} \<union> AuthEventsAt ` {..<length (AuthChain r)}"

lemma finite_slots: "finite (slots r)"
  by (simp add: slots_def)

lemma collect_slot:
  assumes "collect at es m k = Some p"
  shows "m k = Some p \<or> (\<exists>i<length es. p = at i \<and> EventID (es ! i) = k)"
proof -
  have "\<And>n. n \<le> length es \<Longrightarrow>
          fold (\<lambda>i m. m(EventID (es ! i) \<mapsto> at i)) [0..<n] m k = Some p \<Longrightarrow>
          m k = Some p \<or> (\<exists>i<n. p = at i \<and> EventID (es ! i) = k)"
  proof -
    fix n
    show "n \<le> length es \<Longrightarrow>
          fold (\<lambda>i m. m(EventID (es ! i) \<mapsto> at i)) [0..<n] m k = Some p \<Longrightarrow>
          m k = Some p \<or> (\<exists>i<n. p = at i \<and> EventID (es ! i) = k)"
    proof (induction n)
      case 0
      then show ?case by simp
    next
      case (Suc n)
      then show ?case
        by (auto split: if_splits simp: less_Suc_eq)
    qed
  qed
  from this [of "length es"] assms show ?thesis
    by (simp add: collect_def)
qed

lemma eventsByID_slot:
  assumes "eventsByID r k = Some p"
  shows "p \<in> slots r \<and> EventID (deref r p) = k"
proof -
  from collect_slot [OF assms [unfolded eventsByID_def]]
  consider "collect StateEventsAt (StateEvents r) Map.empty k = Some p"
    | i where "i < length (AuthChain r)" "p = AuthEventsAt i" "EventID (AuthChain r ! i) = k"
    by blast
  then show ?thesis
  proof cases
    case 1
    from collect_slot [OF 1] show ?thesis
      by (auto simp: slots_def)
  next
    case 2
    then show ?thesis
      by (auto simp: slots_def)
  qed
qed

lemma scan_Push:
  "scanAuthEvents idx s topID refs = Push a \<Longrightarrow>
     a \<notin> queued s \<and> a \<notin> outputted s \<and> (\<exists>ref \<in> set refs. idx (ref_EventID ref) = Some a)"
  by (induction refs) (auto split: option.splits if_splits)

text \<open>
  The loop \<^verbatim>\<open>LoopProcessTopOfStack: for len(stack) > 0\<close>. The stack is the Go slice: its
  top is the last element, \<^verbatim>\<open>append\<close> adds at the end.
\<close>

function processStack :: "RespState \<Rightarrow> order_state \<Rightarrow> error + order_state" where
  "processStack r s =
     (if stack s = [] then Inr s
      else
        case scanAuthEvents (eventsByID r) s (EventID (deref r (last (stack s))))
               (AuthEvents (deref r (last (stack s)))) of
          Fail e \<Rightarrow> Inl e
        | Push authEvent \<Rightarrow>
            processStack r (s\<lparr>stack := stack s @ [authEvent],
                              queued := insert authEvent (queued s)\<rparr>)
        | Emit \<Rightarrow>
            processStack r (s\<lparr>result := result s @ [deref r (last (stack s))],
                              outputted := insert (last (stack s)) (outputted s),
                              stack := butlast (stack s)\<rparr>))"
  by pat_completeness auto
termination
proof (relation "measure (\<lambda>(r, s). 2 * card (slots r - queued s) + length (stack s))")
  show "wf (measure (\<lambda>(r, s). 2 * card (slots r - queued s) + length (stack s)))"
    by simp
next
  fix r and s :: order_state and a
  assume "stack s \<noteq> []"
    and "scanAuthEvents (eventsByID r) s (EventID (deref r (last (stack s))))
           (AuthEvents (deref r (last (stack s)))) = Push a"
  from scan_Push [OF this(2)] obtain k where a: "a \<notin> queued s" "eventsByID r k = Some a"
    by blast
  from eventsByID_slot [OF a(2)] a(1) have "a \<in> slots r - queued s"
    by simp
  then have "card (slots r - insert a (queued s)) < card (slots r - queued s)"
    using finite_slots [of r]
    by (metis Diff_insert card_Diff1_less finite_Diff)
  then show "((r, s\<lparr>stack := stack s @ [a], queued := insert a (queued s)\<rparr>), (r, s))
       \<in> measure (\<lambda>(r, s). 2 * card (slots r - queued s) + length (stack s))"
    by simp
next
  fix r and s :: order_state
  assume "stack s \<noteq> []"
  then show "((r, s\<lparr>result := result s @ [deref r (last (stack s))],
                    outputted := insert (last (stack s)) (outputted s),
                    stack := butlast (stack s)\<rparr>), (r, s))
       \<in> measure (\<lambda>(r, s). 2 * card (slots r - queued s) + length (stack s))"
    by (cases "stack s" rule: rev_cases) auto
qed

text \<open>
  The loop \<^verbatim>\<open>for _, event := range eventsByID\<close>. Go leaves the order in which a map is
  ranged over unspecified, so the order is an argument: \<open>keys\<close> lists the keys of
  \<open>eventsByID\<close> in the order the runtime yields them.
\<close>

fun rangeEventsByID :: "RespState \<Rightarrow> string list \<Rightarrow> order_state \<Rightarrow> error + order_state" where
  "rangeEventsByID r [] s = Inr s"
| "rangeEventsByID r (k # keys) s =
     (case eventsByID r k of
        None \<Rightarrow> rangeEventsByID r keys s
      | Some event \<Rightarrow>
          if event \<in> outputted s then rangeEventsByID r keys s
          else
            (case processStack r (s\<lparr>stack := [event]\<rparr>) of
               Inl e \<Rightarrow> Inl e
             | Inr s' \<Rightarrow> rangeEventsByID r keys s'))"

text \<open>
  \<^verbatim>\<open>Events\<close> returns the pair \<^verbatim>\<open>([]Event, error)\<close>: \<^verbatim>\<open>(nil, err)\<close> on failure and
  \<^verbatim>\<open>(result, nil)\<close> on success. A \<^verbatim>\<open>nil\<close> slice is the empty list.
\<close>

definition Events :: "string list \<Rightarrow> RespState \<Rightarrow> Event list \<times> error option" where
  "Events keys r =
     (case rangeEventsByID r keys \<lparr>queued = {}, outputted = {}, result = [], stack = []\<rparr> of
        Inl e \<Rightarrow> ([], Some e)
      | Inr s \<Rightarrow> (result s, None))"

section \<open>Collaborators\<close>

text \<open>
  Three collaborators are called by the file and defined elsewhere: the signature verifier
  \<^verbatim>\<open>VerifyAllEventSignatures(ctx, events, keyRing)\<close>, the authorization-set builder
  (\<^verbatim>\<open>NewAuthEvents(nil)\<close> and \<^verbatim>\<open>AddEvent\<close>) and the authorization evaluator
  \<^verbatim>\<open>Allowed(event, &authEvents)\<close>. They are arguments of the model. \<open>'a\<close> is the type of
  the authorization set; an error of a collaborator is its message; the context and the
  key ring are part of the verifier.
\<close>

record 'a collaborators =
  VerifyAllEventSignatures :: "Event list \<Rightarrow> string option"
  NewAuthEvents :: 'a
  AddEvent :: "'a \<Rightarrow> Event \<Rightarrow> string + 'a"
  Allowed :: "Event \<Rightarrow> 'a \<Rightarrow> string option"

text \<open>
  The calls made to the collaborators are recorded in order, each with its arguments, so
  that what is called, on what and how often can be stated. The log is the only state the
  checks thread through; \<^verbatim>\<open>logger.Infof\<close> is left out.
\<close>

datatype 'a call =
    Verify "Event list"
  | Add 'a Event
  | Allow Event 'a

fun isVerify :: "'a call \<Rightarrow> bool" where
  "isVerify (Verify _) = True"
| "isVerify _ = False"

section \<open>\<^verbatim>\<open>checkAllowedByAuthEvents\<close>\<close>

text \<open>
  The argument \<^verbatim>\<open>eventsByID map[string]*Event\<close> is only read through its pointers, which
  are never compared, so an entry is the event pointed to.

  The loop over \<^verbatim>\<open>event.AuthEvents()\<close>: look the reference up, fail when it is absent, add
  the event found to the authorization set, fail when the builder rejects it.
\<close>

fun addAuthEvents ::
  "'a collaborators \<Rightarrow> string \<Rightarrow> (string \<rightharpoonup> Event) \<Rightarrow> EventReference list \<Rightarrow> 'a \<Rightarrow>
     'a call list \<Rightarrow> (error + 'a) \<times> 'a call list" where
  "addAuthEvents c eventID byID [] authEvents log = (Inr authEvents, log)"
| "addAuthEvents c eventID byID (authRef # refs) authEvents log =
     (case byID (ref_EventID authRef) of
        None \<Rightarrow> (Inl (MissingAuthEvent (ref_EventID authRef) eventID), log)
      | Some authEvent \<Rightarrow>
          (case AddEvent c authEvents authEvent of
             Inl err \<Rightarrow> (Inl (Propagated err), log @ [Add authEvents authEvent])
           | Inr authEvents' \<Rightarrow>
               addAuthEvents c eventID byID refs authEvents'
                 (log @ [Add authEvents authEvent])))"

definition checkAllowedByAuthEvents ::
  "'a collaborators \<Rightarrow> Event \<Rightarrow> (string \<rightharpoonup> Event) \<Rightarrow> 'a call list \<Rightarrow>
     error option \<times> 'a call list" where
  "checkAllowedByAuthEvents c event byID log =
     (case addAuthEvents c (EventID event) byID (AuthEvents event) (NewAuthEvents c) log of
        (Inl e, log') \<Rightarrow> (Some e, log')
      | (Inr authEvents, log') \<Rightarrow>
          (case Allowed c event authEvents of
             Some err \<Rightarrow> (Some (NotAuthorized (EventID event) err), log' @ [Allow event authEvents])
           | None \<Rightarrow> (None, log' @ [Allow event authEvents])))"

section \<open>\<^verbatim>\<open>RespState.Check\<close>\<close>

text \<open>The first loop: every event of the authorization chain must have a state key.\<close>

fun checkAuthChain :: "Event list \<Rightarrow> Event list \<Rightarrow> error + Event list" where
  "checkAuthChain [] allEvents = Inr allEvents"
| "checkAuthChain (event # events) allEvents =
     (if StateKey event = None then Inl (NotStateEvent (EventID event))
      else checkAuthChain events (allEvents @ [event]))"

text \<open>
  The second loop, over the state events: in one pass, the state key must be present and
  the tuple \<^verbatim>\<open>StateKeyTuple{event.Type(), *event.StateKey()}\<close> must not be in
  \<^verbatim>\<open>stateTuples\<close> yet.
\<close>

type_synonym StateKeyTuple = "string \<times> string"

fun checkStateEvents ::
  "Event list \<Rightarrow> StateKeyTuple set \<Rightarrow> Event list \<Rightarrow> error + Event list" where
  "checkStateEvents [] stateTuples allEvents = Inr allEvents"
| "checkStateEvents (event # events) stateTuples allEvents =
     (case StateKey event of
        None \<Rightarrow> Inl (NotStateEvent (EventID event))
      | Some stateKey \<Rightarrow>
          if (Type event, stateKey) \<in> stateTuples
          then Inl (DuplicateStateKey (Type event) stateKey)
          else checkStateEvents events (insert (Type event, stateKey) stateTuples)
                 (allEvents @ [event]))"

text \<open>\<^verbatim>\<open>for i := range events { eventsByID[events[i].EventID()] = &events[i] }\<close>\<close>

definition indexByID :: "Event list \<Rightarrow> (string \<rightharpoonup> Event) \<Rightarrow> (string \<rightharpoonup> Event)" where
  "indexByID events m = fold (\<lambda>event m. m(EventID event \<mapsto> event)) events m"

text \<open>The last loop: each event is checked against its own authorization events.\<close>

fun checkAllAllowed ::
  "'a collaborators \<Rightarrow> (string \<rightharpoonup> Event) \<Rightarrow> Event list \<Rightarrow> 'a call list \<Rightarrow>
     error option \<times> 'a call list" where
  "checkAllAllowed c byID [] log = (None, log)"
| "checkAllAllowed c byID (event # events) log =
     (case checkAllowedByAuthEvents c event byID log of
        (Some err, log') \<Rightarrow> (Some err, log')
      | (None, log') \<Rightarrow> checkAllAllowed c byID events log')"

text \<open>\<^verbatim>\<open>Check\<close> returns an \<^verbatim>\<open>error\<close>; \<open>None\<close> is \<^verbatim>\<open>nil\<close>.\<close>

definition Check :: "'a collaborators \<Rightarrow> RespState \<Rightarrow> 'a call list \<Rightarrow> error option \<times> 'a call list" where
  "Check c r log =
     (case checkAuthChain (AuthChain r) [] of
        Inl e \<Rightarrow> (Some e, log)
      | Inr allEvents \<Rightarrow>
          (case checkStateEvents (StateEvents r) {} allEvents of
             Inl e \<Rightarrow> (Some e, log)
           | Inr allEvents \<Rightarrow>
               (case VerifyAllEventSignatures c allEvents of
                  Some err \<Rightarrow> (Some (Propagated err), log @ [Verify allEvents])
                | None \<Rightarrow>
                    checkAllAllowed c (indexByID allEvents Map.empty) allEvents
                      (log @ [Verify allEvents]))))"

section \<open>\<^verbatim>\<open>RespSendJoin.Check\<close>\<close>

text \<open>\<^verbatim>\<open>RespSendJoin\<close> embeds \<^verbatim>\<open>RespState\<close> and adds the origin server.\<close>

record RespSendJoin = RespState +
  Origin :: string

definition ToRespState :: "RespSendJoin \<Rightarrow> RespState" where
  "ToRespState r = \<lparr>StateEvents = StateEvents r, AuthChain = AuthChain r\<rparr>"

text \<open>
  The loop over \<^verbatim>\<open>r.StateEvents\<close> that fills \<^verbatim>\<open>stateEventsByID\<close> and, in the same
  iteration, adds the event to \<^verbatim>\<open>authEvents\<close>.
\<close>

fun addStateEvents ::
  "'a collaborators \<Rightarrow> Event list \<Rightarrow> (string \<rightharpoonup> Event) \<Rightarrow> 'a \<Rightarrow> 'a call list \<Rightarrow>
     (error + (string \<rightharpoonup> Event) \<times> 'a) \<times> 'a call list" where
  "addStateEvents c [] stateEventsByID authEvents log = (Inr (stateEventsByID, authEvents), log)"
| "addStateEvents c (event # events) stateEventsByID authEvents log =
     (case AddEvent c authEvents event of
        Inl err \<Rightarrow> (Inl (Propagated err), log @ [Add authEvents event])
      | Inr authEvents' \<Rightarrow>
          addStateEvents c events (stateEventsByID(EventID event \<mapsto> event)) authEvents'
            (log @ [Add authEvents event]))"

definition SendJoinCheck ::
  "'a collaborators \<Rightarrow> RespSendJoin \<Rightarrow> Event \<Rightarrow> 'a call list \<Rightarrow> error option \<times> 'a call list" where
  "SendJoinCheck c r joinEvent log =
     (case Check c (ToRespState r) log of
        (Some err, log1) \<Rightarrow> (Some err, log1)
      | (None, log1) \<Rightarrow>
          (case addStateEvents c (StateEvents r) Map.empty (NewAuthEvents c) log1 of
             (Inl err, log2) \<Rightarrow> (Some err, log2)
           | (Inr (stateEventsByID, authEvents), log2) \<Rightarrow>
               (case checkAllowedByAuthEvents c joinEvent stateEventsByID log2 of
                  (Some err, log3) \<Rightarrow> (Some err, log3)
                | (None, log3) \<Rightarrow>
                    (case Allowed c joinEvent authEvents of
                       Some err \<Rightarrow>
                         (Some (NotAuthorizedBySuppliedState (EventID joinEvent) err),
                          log3 @ [Allow joinEvent authEvents])
                     | None \<Rightarrow> (None, log3 @ [Allow joinEvent authEvents])))))"

section \<open>\<^verbatim>\<open>RespInvite\<close>\<close>

text \<open>
  JSON documents as values. \<^verbatim>\<open>json.Marshal\<close> and \<^verbatim>\<open>json.Unmarshal\<close> are the standard
  library's and the encoding of an \<^verbatim>\<open>Event\<close> is defined outside the file, so the model
  works on the document a byte string denotes, and takes as arguments the encoder of
  an event (\<^verbatim>\<open>Event.MarshalJSON\<close>) and the decoder of \<^verbatim>\<open>respInviteFields\<close>
  (\<^verbatim>\<open>json.Unmarshal(tuple[1], &fields)\<close>).
\<close>

datatype json =
    JNull
  | JBool bool
  | JNumber int
  | JString string
  | JArray "json list"
  | JObject "(string \<times> json) list"

record RespInvite =
  InviteEvent :: Event

text \<open>
  \<^verbatim>\<open>json.Marshal([]interface{}{200, respInviteFields(r)})\<close>: the struct
  \<^verbatim>\<open>respInviteFields\<close> has the single field \<^verbatim>\<open>Event\<close> with the tag \<^verbatim>\<open>json:"event"\<close>.
\<close>

definition MarshalJSON :: "(Event \<Rightarrow> string + json) \<Rightarrow> RespInvite \<Rightarrow> error + json" where
  "MarshalJSON marshalEvent r =
     (case marshalEvent (InviteEvent r) of
        Inl err \<Rightarrow> Inl (Propagated err)
      | Inr event \<Rightarrow> Inr (JArray [JNumber 200, JObject [(''event'', event)]]))"

text \<open>
  \<^verbatim>\<open>json.Unmarshal(data, &tuple)\<close> into a \<^verbatim>\<open>[]RawJSON\<close>: an array gives its elements,
  \<^verbatim>\<open>null\<close> leaves the slice \<^verbatim>\<open>nil\<close>, any other document is a type error of the library,
  whose text names the kind of the document.
\<close>

definition unmarshalTypeError :: "string \<Rightarrow> string" where
  "unmarshalTypeError kind =
     ''json: cannot unmarshal '' @ kind @ '' into Go value of type []gomatrixserverlib.RawJSON''"

definition unmarshalTuple :: "json \<Rightarrow> string + json list" where
  "unmarshalTuple data =
     (case data of
        JArray elements \<Rightarrow> Inr elements
      | JNull \<Rightarrow> Inr []
      | JBool b \<Rightarrow> Inl (unmarshalTypeError ''bool'')
      | JNumber n \<Rightarrow> Inl (unmarshalTypeError ''number'')
      | JString s \<Rightarrow> Inl (unmarshalTypeError ''string'')
      | JObject members \<Rightarrow> Inl (unmarshalTypeError ''object''))"

definition UnmarshalJSON :: "(json \<Rightarrow> string + Event) \<Rightarrow> json \<Rightarrow> error + RespInvite" where
  "UnmarshalJSON unmarshalFields data =
     (case unmarshalTuple data of
        Inl err \<Rightarrow> Inl (Propagated err)
      | Inr tuple \<Rightarrow>
          if length tuple \<noteq> 2 then Inl (InvalidInviteLength (length tuple))
          else
            (case unmarshalFields (tuple ! 1) of
               Inl err \<Rightarrow> Inl (Propagated err)
             | Inr event \<Rightarrow> Inr \<lparr>InviteEvent = event\<rparr>))"

section \<open>Vocabulary of the properties\<close>

text \<open>
  \<open>combined\<close> is the combined set of state and authorization-chain events of a response;
  \<open>indexed\<close> is the set of events \<open>eventsByID\<close> points to, one for each identifier.
  \<open>references es\<close> is the graph of the \<^verbatim>\<open>AuthEvents\<close> references of the events \<open>es\<close>,
  an edge leading from the identifier of an event to each identifier it references;
  \<open>gapFree es\<close> says that every reference resolves to an event of \<open>es\<close>.
  \<open>authEventsFirst\<close> is the ordering promised for the result: every reference of an
  event is the identifier of an event at a strictly smaller position.
\<close>

definition combined :: "RespState \<Rightarrow> Event set" where
  "combined r = set (StateEvents r) \<union> set (AuthChain r)"

definition indexed :: "RespState \<Rightarrow> Event set" where
  "indexed r = deref r ` ran (eventsByID r)"

definition references :: "Event set \<Rightarrow> (string \<times> string) set" where
  "references es = {(EventID e, ref_EventID ref) | e ref. e \<in> es \<and> ref \<in> set (AuthEvents e)}"

definition gapFree :: "Event set \<Rightarrow> bool" where
  "gapFree es \<longleftrightarrow> snd ` references es \<subseteq> EventID ` es"

definition authEventsFirst :: "Event list \<Rightarrow> bool" where
  "authEventsFirst es \<longleftrightarrow>
     (\<forall>j<length es. \<forall>ref\<in>set (AuthEvents (es ! j)). \<exists>i<j. EventID (es ! i) = ref_EventID ref)"

text \<open>
  The invariant of the loop over the stack. The events on the stack and the events
  written are indexed events; no event on the stack is written; an event that is queued
  is written or on the stack; each event on the stack references the one above it; the
  result lists the events written, each once; and the result has its authorization
  events first.
\<close>

definition order_inv :: "RespState \<Rightarrow> order_state \<Rightarrow> bool" where
  "order_inv r s \<longleftrightarrow>
     set (stack s) \<subseteq> ran (eventsByID r) \<and>
     outputted s \<subseteq> ran (eventsByID r) \<and>
     set (stack s) \<inter> outputted s = {} \<and>
     queued s \<subseteq> outputted s \<union> set (stack s) \<and>
     successively (\<lambda>b a. (EventID (deref r b), EventID (deref r a)) \<in> references (indexed r)) (stack s) \<and>
     (\<exists>os. result s = map (deref r) os \<and> distinct os \<and> set os = outputted s) \<and>
     authEventsFirst (result s)"

text \<open>
  What an error of the ordering says: a missing authorization event is an unresolvable
  reference of an indexed event, named with that event; a cycle error names an
  identifier that reaches itself along the references of the indexed events.
\<close>

definition order_fail :: "RespState \<Rightarrow> error \<Rightarrow> bool" where
  "order_fail r e \<longleftrightarrow>
     (\<exists>p\<in>ran (eventsByID r). \<exists>ref\<in>set (AuthEvents (deref r p)).
         e = MissingAuthEvent (ref_EventID ref) (EventID (deref r p)) \<and>
         eventsByID r (ref_EventID ref) = None)
   \<or> (\<exists>k. e = AuthEventCycle k \<and> (k, k) \<in> (references (indexed r))\<^sup>+)"

text \<open>
  \<open>stateKeyTuple\<close> is the \<^verbatim>\<open>StateKeyTuple\<close> of an event that has a state key.
  \<open>wellFormed\<close> collects the checks \<open>Check\<close> makes before it calls a collaborator: every
  event of the authorization chain and every state event has a state key, and no two
  state events share their tuple. \<open>accumulate\<close> adds events in turn to an
  authorization set and stops at the first event the builder rejects.
\<close>

definition stateKeyTuple :: "Event \<Rightarrow> StateKeyTuple" where
  "stateKeyTuple event = (Type event, the (StateKey event))"

definition wellFormed :: "RespState \<Rightarrow> bool" where
  "wellFormed r \<longleftrightarrow>
     (\<forall>event\<in>set (AuthChain r). StateKey event \<noteq> None) \<and>
     (\<forall>event\<in>set (StateEvents r). StateKey event \<noteq> None) \<and>
     distinct (map stateKeyTuple (StateEvents r))"

fun accumulate :: "'a collaborators \<Rightarrow> 'a \<Rightarrow> Event list \<Rightarrow> string + 'a" where
  "accumulate c authEvents [] = Inr authEvents"
| "accumulate c authEvents (event # events) =
     (case AddEvent c authEvents event of
        Inl err \<Rightarrow> Inl err
      | Inr authEvents' \<Rightarrow> accumulate c authEvents' events)"

text \<open>
  \<open>addCalls\<close> lists the calls of \<^verbatim>\<open>AddEvent\<close> that adding the events in turn makes: one
  for each event up to and including the first the builder rejects.
\<close>

fun addCalls :: "'a collaborators \<Rightarrow> 'a \<Rightarrow> Event list \<Rightarrow> 'a call list" where
  "addCalls c authEvents [] = []"
| "addCalls c authEvents (event # events) =
     Add authEvents event #
       (case AddEvent c authEvents event of
          Inl err \<Rightarrow> []
        | Inr authEvents' \<Rightarrow> addCalls c authEvents' events)"

section \<open>Example inputs\<close>

text \<open>
  A room creation event and a membership event that depends on it, and the response in
  which the creation event is both a state event and in the authorization chain.
\<close>

definition createEvent :: Event where
  "createEvent = \<lparr>EventID = ''$create'', Type = ''m.room.create'', StateKey = Some '''', AuthEvents = []\<rparr>"

definition joinEvent0 :: Event where
  "joinEvent0 = \<lparr>EventID = ''$join'', Type = ''m.room.member'', StateKey = Some ''@alice:example.org'',
     AuthEvents = [\<lparr>ref_EventID = ''$create'', ref_EventSHA256 = ''''\<rparr>]\<rparr>"

definition scenarioA :: RespState where
  "scenarioA = \<lparr>StateEvents = [createEvent, joinEvent0], AuthChain = [createEvent]\<rparr>"

text \<open>
  Two events that reference each other; an event whose references are a missing
  identifier and then itself, and one with the two references in the other order; a
  membership event that references an identifier no event has.
\<close>

definition cycleX :: Event where
  "cycleX = \<lparr>EventID = ''$x'', Type = ''m.room.member'', StateKey = Some ''@x:example.org'',
     AuthEvents = [\<lparr>ref_EventID = ''$y'', ref_EventSHA256 = ''''\<rparr>]\<rparr>"

definition cycleY :: Event where
  "cycleY = \<lparr>EventID = ''$y'', Type = ''m.room.member'', StateKey = Some ''@y:example.org'',
     AuthEvents = [\<lparr>ref_EventID = ''$x'', ref_EventSHA256 = ''''\<rparr>]\<rparr>"

definition scenarioC :: RespState where
  "scenarioC = \<lparr>StateEvents = [cycleX, cycleY], AuthChain = []\<rparr>"

definition gapThenSelf :: Event where
  "gapThenSelf = \<lparr>EventID = ''$x'', Type = ''m.room.member'', StateKey = Some ''@x:example.org'',
     AuthEvents = [\<lparr>ref_EventID = ''$missing'', ref_EventSHA256 = ''''\<rparr>,
                   \<lparr>ref_EventID = ''$x'', ref_EventSHA256 = ''''\<rparr>]\<rparr>"

definition selfThenGap :: Event where
  "selfThenGap = \<lparr>EventID = ''$x'', Type = ''m.room.member'', StateKey = Some ''@x:example.org'',
     AuthEvents = [\<lparr>ref_EventID = ''$x'', ref_EventSHA256 = ''''\<rparr>,
                   \<lparr>ref_EventID = ''$missing'', ref_EventSHA256 = ''''\<rparr>]\<rparr>"

definition gapJoin :: Event where
  "gapJoin = \<lparr>EventID = ''$join'', Type = ''m.room.member'', StateKey = Some ''@alice:example.org'',
     AuthEvents = [\<lparr>ref_EventID = ''$missing'', ref_EventSHA256 = ''''\<rparr>]\<rparr>"

definition scenarioB :: RespState where
  "scenarioB = \<lparr>StateEvents = [gapJoin], AuthChain = []\<rparr>"

text \<open>
  Collaborators that accept everything, and a verifier that rejects every batch; two
  power-level events for the same slot of the room state; an event that is no state
  event.
\<close>

definition accept :: "unit collaborators" where
  "accept = \<lparr>VerifyAllEventSignatures = (\<lambda>events. None), NewAuthEvents = (),
     AddEvent = (\<lambda>authEvents event. Inr authEvents), Allowed = (\<lambda>event authEvents. None)\<rparr>"

definition rejectSignatures :: "unit collaborators" where
  "rejectSignatures = accept\<lparr>VerifyAllEventSignatures := (\<lambda>events. Some ''bad signature'')\<rparr>"

definition powerOld :: Event where
  "powerOld = \<lparr>EventID = ''$power1'', Type = ''m.room.power_levels'', StateKey = Some '''',
     AuthEvents = []\<rparr>"

definition powerNew :: Event where
  "powerNew = \<lparr>EventID = ''$power2'', Type = ''m.room.power_levels'', StateKey = Some '''',
     AuthEvents = []\<rparr>"

definition message :: Event where
  "message = \<lparr>EventID = ''$message'', Type = ''m.room.message'', StateKey = None,
     AuthEvents = []\<rparr>"

text \<open>
  Authorization sets that are the list of the events added: a builder that rejects
  third-party invites together with an evaluator that rejects the join event, and a
  builder that accepts every event with an evaluator that rejects the join event once a
  ban is in the set. A join event that depends on the creation event and on a
  power-level event, and one that depends on two power-level events.
\<close>

definition strict :: "Event list collaborators" where
  "strict = \<lparr>VerifyAllEventSignatures = (\<lambda>events. None), NewAuthEvents = [],
     AddEvent = (\<lambda>authEvents event.
        if Type event = ''m.room.third_party_invite'' then Inl ''malformed third party invite''
        else Inr (authEvents @ [event])),
     Allowed = (\<lambda>event authEvents.
        if EventID event = ''$join'' then Some ''sender is not invited'' else None)\<rparr>"

definition inviteToken :: Event where
  "inviteToken = \<lparr>EventID = ''$token'', Type = ''m.room.third_party_invite'', StateKey = Some ''token'',
     AuthEvents = [\<lparr>ref_EventID = ''$create'', ref_EventSHA256 = ''''\<rparr>]\<rparr>"

definition banEvent :: Event where
  "banEvent = \<lparr>EventID = ''$ban'', Type = ''m.room.member'', StateKey = Some ''@mallory:example.org'',
     AuthEvents = [\<lparr>ref_EventID = ''$create'', ref_EventSHA256 = ''''\<rparr>]\<rparr>"

definition ledger :: "Event list collaborators" where
  "ledger = \<lparr>VerifyAllEventSignatures = (\<lambda>events. None), NewAuthEvents = [],
     AddEvent = (\<lambda>authEvents event. Inr (authEvents @ [event])),
     Allowed = (\<lambda>event authEvents.
        if EventID event = ''$join'' \<and> banEvent \<in> set authEvents then Some ''user is banned''
        else None)\<rparr>"

definition powerJoin :: Event where
  "powerJoin = \<lparr>EventID = ''$join'', Type = ''m.room.member'', StateKey = Some ''@alice:example.org'',
     AuthEvents = [\<lparr>ref_EventID = ''$create'', ref_EventSHA256 = ''''\<rparr>,
                   \<lparr>ref_EventID = ''$power1'', ref_EventSHA256 = ''''\<rparr>]\<rparr>"

definition twoPowerJoin :: Event where
  "twoPowerJoin = \<lparr>EventID = ''$join'', Type = ''m.room.member'', StateKey = Some ''@alice:example.org'',
     AuthEvents = [\<lparr>ref_EventID = ''$power1'', ref_EventSHA256 = ''''\<rparr>,
                   \<lparr>ref_EventID = ''$power2'', ref_EventSHA256 = ''''\<rparr>]\<rparr>"

text \<open>
  A toy encoding of an event, by its identifier alone, with the matching decoder of the
  fields object.
\<close>

definition encodeID :: "Event \<Rightarrow> string + json" where
  "encodeID event = Inr (JString (EventID event))"

definition decodeID :: "json \<Rightarrow> string + Event" where
  "decodeID doc =
     (case doc of
        JObject [(key, JString eventID)] \<Rightarrow>
          if key = ''event''
          then Inr \<lparr>EventID = eventID, Type = ''m.room.member'', StateKey = None, AuthEvents = []\<rparr>
          else Inl ''no event''
      | _ \<Rightarrow> Inl ''no event'')"

definition invite :: Event where
  "invite = \<lparr>EventID = ''$invite'', Type = ''m.room.member'', StateKey = None, AuthEvents = []\<rparr>"

section \<open>The ordering loop\<close>

lemma references_iff:
  "(a, b) \<in> references es \<longleftrightarrow>
     (\<exists>e\<in>es. \<exists>ref\<in>set (AuthEvents e). a = EventID e \<and> b = ref_EventID ref)"
  unfolding references_def by fast

lemma ran_slot:
  assumes "p \<in> ran (eventsByID r)"
  shows "eventsByID r (EventID (deref r p)) = Some p"
proof -
  from assms obtain k where "eventsByID r k = Some p"
    by (auto simp: ran_def)
  with eventsByID_slot [OF this] show ?thesis
    by simp
qed

lemma scan_Fail:
  assumes "scanAuthEvents idx s topID refs = Fail e"
  shows "(\<exists>ref\<in>set refs. e = MissingAuthEvent (ref_EventID ref) topID \<and> idx (ref_EventID ref) = None)
       \<or> (\<exists>ref\<in>set refs. \<exists>a. e = AuthEventCycle (ref_EventID ref) \<and> idx (ref_EventID ref) = Some a
              \<and> a \<in> queued s \<and> a \<notin> outputted s)"
  using assms by (induction refs) (auto split: option.splits if_splits)

lemma scan_Emit:
  assumes "scanAuthEvents idx s topID refs = Emit"
  shows "\<forall>ref\<in>set refs. \<exists>a\<in>outputted s. idx (ref_EventID ref) = Some a"
  using assms by (induction refs) (auto split: option.splits if_splits)

lemma successively_reaches_last:
  assumes "successively (\<lambda>b a. (f b, f a) \<in> G) xs" and "a \<in> set xs"
  shows "(f a, f (last xs)) \<in> G\<^sup>*"
  using assms
proof (induction xs arbitrary: a)
  case Nil
  then show ?case by simp
next
  case (Cons x xs)
  show ?case
  proof (cases "xs = []")
    case True
    with Cons.prems show ?thesis by simp
  next
    case False
    with Cons.prems have step: "(f x, f (hd xs)) \<in> G" and rest: "successively (\<lambda>b a. (f b, f a) \<in> G) xs"
      by (auto simp: successively_Cons)
    from False have "hd xs \<in> set xs" by simp
    from Cons.IH [OF rest this] have hd_last: "(f (hd xs), f (last xs)) \<in> G\<^sup>*" .
    show ?thesis
    proof (cases "a = x")
      case True
      with step hd_last False show ?thesis
        by (simp add: converse_rtrancl_into_rtrancl)
    next
      case False
      with Cons.prems have "a \<in> set xs" by simp
      from Cons.IH [OF rest this] \<open>xs \<noteq> []\<close> show ?thesis by simp
    qed
  qed
qed

lemma authEventsFirst_snoc:
  assumes "authEventsFirst es"
    and "\<forall>ref\<in>set (AuthEvents e). ref_EventID ref \<in> EventID ` set es"
  shows "authEventsFirst (es @ [e])"
  unfolding authEventsFirst_def
proof (intro allI impI ballI)
  fix j ref
  assume j: "j < length (es @ [e])" and ref: "ref \<in> set (AuthEvents ((es @ [e]) ! j))"
  show "\<exists>i<j. EventID ((es @ [e]) ! i) = ref_EventID ref"
  proof (cases "j < length es")
    case True
    with ref assms(1) obtain i where "i < j" "EventID (es ! i) = ref_EventID ref"
      by (auto simp: authEventsFirst_def nth_append)
    with True show ?thesis
      by (auto simp: nth_append intro!: exI [of _ i])
  next
    case False
    with j have jl: "j = length es" by simp
    with ref assms(2) have "ref_EventID ref \<in> EventID ` set es" by simp
    then obtain i where "i < length es" "EventID (es ! i) = ref_EventID ref"
      by (auto simp: in_set_conv_nth)
    with jl show ?thesis
      by (auto simp: nth_append intro!: exI [of _ i])
  qed
qed

lemma successively_butlast_next:
  assumes "successively P xs" and "x \<in> set (butlast xs)"
  shows "\<exists>y\<in>set xs. P x y"
  using assms
proof (induction xs)
  case Nil
  then show ?case by simp
next
  case (Cons z zs)
  then show ?case
    by (cases zs) (auto split: if_splits)
qed

lemma indexed_edge:
  assumes p: "p \<in> ran (eventsByID r)"
    and edge: "(EventID (deref r p), k) \<in> references (indexed r)"
  shows "\<exists>ref\<in>set (AuthEvents (deref r p)). ref_EventID ref = k"
proof -
  from edge have "\<exists>q ref. q \<in> ran (eventsByID r) \<and> EventID (deref r q) = EventID (deref r p) \<and>
      ref \<in> set (AuthEvents (deref r q)) \<and> ref_EventID ref = k"
    unfolding references_iff indexed_def by fastforce
  then obtain q ref where q: "q \<in> ran (eventsByID r)" "EventID (deref r q) = EventID (deref r p)"
      "ref \<in> set (AuthEvents (deref r q))" "ref_EventID ref = k"
    by blast
  from ran_slot [OF q(1)] ran_slot [OF p] q(2) have "q = p" by (metis option.inject)
  with q show ?thesis by blast
qed

lemma order_inv_Push:
  assumes inv: "order_inv r s" and ne: "stack s \<noteq> []"
    and scan: "scanAuthEvents (eventsByID r) s (EventID (deref r (last (stack s))))
                 (AuthEvents (deref r (last (stack s)))) = Push a"
  shows "order_inv r (s\<lparr>stack := stack s @ [a], queued := insert a (queued s)\<rparr>)"
proof -
  from scan_Push [OF scan] obtain ref where
    a: "a \<notin> queued s" "a \<notin> outputted s"
      "ref \<in> set (AuthEvents (deref r (last (stack s))))" "eventsByID r (ref_EventID ref) = Some a"
    by blast
  from a(4) have a_ran: "a \<in> ran (eventsByID r)"
    by (auto simp: ran_def)
  from eventsByID_slot [OF a(4)] have a_id: "EventID (deref r a) = ref_EventID ref"
    by simp
  from inv ne have "last (stack s) \<in> ran (eventsByID r)"
    by (auto simp: order_inv_def)
  then have "deref r (last (stack s)) \<in> indexed r"
    by (simp add: indexed_def)
  with a(3) a_id have edge:
    "(EventID (deref r (last (stack s))), EventID (deref r a)) \<in> references (indexed r)"
    unfolding references_iff by metis
  from inv edge have "successively
      (\<lambda>b a. (EventID (deref r b), EventID (deref r a)) \<in> references (indexed r)) (stack s @ [a])"
    by (simp add: order_inv_def successively_append_iff)
  with inv a(2) a_ran show ?thesis
    by (auto simp: order_inv_def)
qed

lemma order_inv_Emit:
  assumes inv: "order_inv r s" and ne: "stack s \<noteq> []"
    and scan: "scanAuthEvents (eventsByID r) s (EventID (deref r (last (stack s))))
                 (AuthEvents (deref r (last (stack s)))) = Emit"
  shows "order_inv r (s\<lparr>result := result s @ [deref r (last (stack s))],
                          outputted := insert (last (stack s)) (outputted s),
                          stack := butlast (stack s)\<rparr>)"
proof -
  let ?top = "last (stack s)"
  from inv obtain os where os: "result s = map (deref r) os" "distinct os" "set os = outputted s"
    by (auto simp: order_inv_def)
  from ne have top_in: "?top \<in> set (stack s)" by simp
  with inv have top_new: "?top \<notin> outputted s" and top_ran: "?top \<in> ran (eventsByID r)"
    by (auto simp: order_inv_def)
  have "\<forall>ref\<in>set (AuthEvents (deref r ?top)). ref_EventID ref \<in> EventID ` set (result s)"
  proof
    fix ref assume "ref \<in> set (AuthEvents (deref r ?top))"
    with scan_Emit [OF scan] obtain b where b: "b \<in> outputted s" "eventsByID r (ref_EventID ref) = Some b"
      by blast
    from eventsByID_slot [OF b(2)] b(1) os show "ref_EventID ref \<in> EventID ` set (result s)"
      by force
  qed
  with inv have first: "authEventsFirst (result s @ [deref r ?top])"
    by (simp add: order_inv_def authEventsFirst_snoc)
  have res: "\<exists>os'. result s @ [deref r ?top] = map (deref r) os' \<and> distinct os' \<and>
               set os' = insert ?top (outputted s)"
    using os top_new by (intro exI [of _ "os @ [?top]"]) auto
  from ne have split: "stack s = butlast (stack s) @ [?top]" by simp
  from inv have "successively
      (\<lambda>b a. (EventID (deref r b), EventID (deref r a)) \<in> references (indexed r)) (butlast (stack s) @ [?top])"
    using split by (simp add: order_inv_def)
  then have succ: "successively
      (\<lambda>b a. (EventID (deref r b), EventID (deref r a)) \<in> references (indexed r)) (butlast (stack s))"
    by (simp add: successively_append_iff)
  have sub: "set (butlast (stack s)) \<subseteq> set (stack s)"
    by (auto dest: in_set_butlastD)
  have q: "queued s \<subseteq> insert ?top (outputted s) \<union> set (butlast (stack s))"
  proof
    fix p assume "p \<in> queued s"
    with inv have "p \<in> outputted s \<or> p \<in> set (butlast (stack s) @ [?top])"
      using split by (auto simp: order_inv_def)
    then show "p \<in> insert ?top (outputted s) \<union> set (butlast (stack s))" by auto
  qed
  have top_once: "?top \<notin> set (butlast (stack s))"
  proof
    assume "?top \<in> set (butlast (stack s))"
    with inv obtain c where c: "c \<in> set (stack s)"
        "(EventID (deref r ?top), EventID (deref r c)) \<in> references (indexed r)"
      by (auto simp: order_inv_def dest: successively_butlast_next)
    from indexed_edge [OF top_ran c(2)] obtain ref where
      ref: "ref \<in> set (AuthEvents (deref r ?top))" "ref_EventID ref = EventID (deref r c)"
      by blast
    with scan_Emit [OF scan] obtain b where b: "b \<in> outputted s" "eventsByID r (ref_EventID ref) = Some b"
      by blast
    from inv c(1) have "c \<in> ran (eventsByID r)"
      by (auto simp: order_inv_def)
    from ran_slot [OF this] b(2) ref(2) have "b = c" by (metis option.inject)
    with b(1) c(1) inv show False
      by (auto simp: order_inv_def)
  qed
  have disj: "set (butlast (stack s)) \<inter> insert ?top (outputted s) = {}"
    using inv sub top_once by (auto simp: order_inv_def)
  have s1: "set (butlast (stack s)) \<subseteq> ran (eventsByID r)"
    using inv sub by (auto simp: order_inv_def)
  have s2: "insert ?top (outputted s) \<subseteq> ran (eventsByID r)"
    using inv top_ran by (auto simp: order_inv_def)
  show ?thesis
    unfolding order_inv_def
    using s1 s2 disj q succ res first by simp
qed

lemma order_fail_scan:
  assumes inv: "order_inv r s" and ne: "stack s \<noteq> []"
    and scan: "scanAuthEvents (eventsByID r) s (EventID (deref r (last (stack s))))
                 (AuthEvents (deref r (last (stack s)))) = Fail e"
  shows "order_fail r e"
proof -
  let ?top = "last (stack s)"
  let ?G = "references (indexed r)"
  from inv ne have top_ran: "?top \<in> ran (eventsByID r)"
    by (auto simp: order_inv_def)
  from scan_Fail [OF scan] show ?thesis
  proof
    assume "\<exists>ref\<in>set (AuthEvents (deref r ?top)).
       e = MissingAuthEvent (ref_EventID ref) (EventID (deref r ?top)) \<and>
       eventsByID r (ref_EventID ref) = None"
    with top_ran show ?thesis
      unfolding order_fail_def by blast
  next
    assume "\<exists>ref\<in>set (AuthEvents (deref r ?top)). \<exists>a. e = AuthEventCycle (ref_EventID ref) \<and>
       eventsByID r (ref_EventID ref) = Some a \<and> a \<in> queued s \<and> a \<notin> outputted s"
    then obtain ref a where ref: "ref \<in> set (AuthEvents (deref r ?top))"
        "e = AuthEventCycle (ref_EventID ref)" "eventsByID r (ref_EventID ref) = Some a"
        "a \<in> queued s" "a \<notin> outputted s"
      by blast
    from eventsByID_slot [OF ref(3)] have a_id: "EventID (deref r a) = ref_EventID ref"
      by simp
    from inv ref(4,5) have "a \<in> set (stack s)"
      by (auto simp: order_inv_def)
    moreover from inv have "successively
        (\<lambda>b a. (EventID (deref r b), EventID (deref r a)) \<in> ?G) (stack s)"
      by (simp add: order_inv_def)
    ultimately have path: "(EventID (deref r a), EventID (deref r ?top)) \<in> ?G\<^sup>*"
      by (rule successively_reaches_last [where f = "\<lambda>p. EventID (deref r p)", rotated])
    from top_ran have "deref r ?top \<in> indexed r"
      by (simp add: indexed_def)
    with ref(1) have "(EventID (deref r ?top), ref_EventID ref) \<in> ?G"
      unfolding references_iff by blast
    with path a_id have "(ref_EventID ref, ref_EventID ref) \<in> ?G\<^sup>+"
      by (metis rtrancl_into_trancl1)
    with ref(2) show ?thesis
      unfolding order_fail_def by blast
  qed
qed

lemma processStack_spec:
  "order_inv r s \<Longrightarrow>
     (case processStack r s of
        Inl e \<Rightarrow> order_fail r e
      | Inr s' \<Rightarrow> order_inv r s' \<and> stack s' = [] \<and> outputted s \<union> set (stack s) \<subseteq> outputted s')"
proof (induction r s rule: processStack.induct)
  case (1 r s)
  show ?case
  proof (cases "stack s = []")
    case True
    with "1.prems" show ?thesis by simp
  next
    case ne: False
    let ?scan = "scanAuthEvents (eventsByID r) s (EventID (deref r (last (stack s))))
                   (AuthEvents (deref r (last (stack s))))"
    show ?thesis
    proof (cases ?scan)
      case (Fail e)
      from order_fail_scan [OF "1.prems" ne Fail] ne Fail show ?thesis
        by simp
    next
      case (Push a)
      let ?s = "s\<lparr>stack := stack s @ [a], queued := insert a (queued s)\<rparr>"
      from "1.IH"(1) [OF ne Push order_inv_Push [OF "1.prems" ne Push]]
      have "case processStack r ?s of
              Inl e \<Rightarrow> order_fail r e
            | Inr s' \<Rightarrow> order_inv r s' \<and> stack s' = [] \<and> outputted ?s \<union> set (stack ?s) \<subseteq> outputted s'" .
      moreover have "processStack r s = processStack r ?s"
        using ne Push by (subst processStack.simps) simp
      ultimately show ?thesis
        by (auto split: sum.splits)
    next
      case Emit
      let ?s = "s\<lparr>result := result s @ [deref r (last (stack s))],
                   outputted := insert (last (stack s)) (outputted s),
                   stack := butlast (stack s)\<rparr>"
      from "1.IH"(2) [OF ne Emit order_inv_Emit [OF "1.prems" ne Emit]]
      have "case processStack r ?s of
              Inl e \<Rightarrow> order_fail r e
            | Inr s' \<Rightarrow> order_inv r s' \<and> stack s' = [] \<and> outputted ?s \<union> set (stack ?s) \<subseteq> outputted s'" .
      moreover have "processStack r s = processStack r ?s"
        using ne Emit by (subst processStack.simps) simp
      moreover from ne have "set (stack s) = insert (last (stack s)) (set (butlast (stack s)))"
        by (metis append_butlast_last_id list.simps(15) rotate1.simps(2) set_rotate1)
      ultimately show ?thesis
        by (auto split: sum.splits)
    qed
  qed
qed

lemma rangeEventsByID_spec:
  "order_inv r s \<Longrightarrow> stack s = [] \<Longrightarrow>
     (case rangeEventsByID r keys s of
        Inl e \<Rightarrow> order_fail r e
      | Inr s' \<Rightarrow> order_inv r s' \<and> stack s' = [] \<and> outputted s \<subseteq> outputted s' \<and>
          (\<forall>k\<in>set keys. \<forall>p. eventsByID r k = Some p \<longrightarrow> p \<in> outputted s'))"
proof (induction keys arbitrary: s)
  case Nil
  then show ?case by simp
next
  case (Cons k keys)
  show ?case
  proof (cases "eventsByID r k")
    case None
    with Cons.IH [OF Cons.prems] show ?thesis
      by (auto split: sum.splits)
  next
    case (Some event)
    show ?thesis
    proof (cases "event \<in> outputted s")
      case True
      with Some Cons.IH [OF Cons.prems] show ?thesis
        by (auto split: sum.splits)
    next
      case False
      let ?s = "s\<lparr>stack := [event]\<rparr>"
      from Some have "event \<in> ran (eventsByID r)"
        by (auto simp: ran_def)
      with Cons.prems False have inv: "order_inv r ?s"
        by (auto simp: order_inv_def)
      show ?thesis
      proof (cases "processStack r ?s")
        case (Inl e)
        with processStack_spec [OF inv] Some False show ?thesis
          by simp
      next
        case (Inr s')
        with processStack_spec [OF inv] have s': "order_inv r s'" "stack s' = []"
            "outputted s \<subseteq> outputted s'" "event \<in> outputted s'"
          by auto
        have eq: "rangeEventsByID r (k # keys) s = rangeEventsByID r keys s'"
          using Some False Inr by simp
        from Cons.IH [OF s'(1,2)] s'(3,4) Some show ?thesis
          unfolding eq by (auto split: sum.splits)
      qed
    qed
  qed
qed

lemma Events_spec:
  assumes keys: "set keys = dom (eventsByID r)"
  shows "case Events keys r of
           (es, None) \<Rightarrow> authEventsFirst es \<and>
               (\<exists>os. es = map (deref r) os \<and> distinct os \<and> set os = ran (eventsByID r))
         | (es, Some e) \<Rightarrow> es = [] \<and> order_fail r e"
proof -
  let ?s0 = "\<lparr>queued = {}, outputted = {}, result = [], stack = []\<rparr>"
  have inv0: "order_inv r ?s0"
    by (simp add: order_inv_def authEventsFirst_def)
  show ?thesis
  proof (cases "rangeEventsByID r keys ?s0")
    case (Inl e)
    with rangeEventsByID_spec [OF inv0, of keys] show ?thesis
      by (simp add: Events_def)
  next
    case (Inr s')
    with rangeEventsByID_spec [OF inv0, of keys] have s': "order_inv r s'"
        "\<forall>k\<in>set keys. \<forall>p. eventsByID r k = Some p \<longrightarrow> p \<in> outputted s'"
      by auto
    from s'(2) keys have "ran (eventsByID r) \<subseteq> outputted s'"
      by (auto simp: ran_def)
    with s'(1) have "outputted s' = ran (eventsByID r)"
      by (auto simp: order_inv_def)
    with s'(1) Inr show ?thesis
      by (auto simp: Events_def order_inv_def)
  qed
qed

lemma dom_collect: "dom (collect at es m) = dom m \<union> EventID ` set es"
proof -
  have "\<And>n. n \<le> length es \<Longrightarrow>
          dom (fold (\<lambda>i m. m(EventID (es ! i) \<mapsto> at i)) [0..<n] m) =
          dom m \<union> EventID ` set (take n es)"
  proof -
    fix n
    show "n \<le> length es \<Longrightarrow>
          dom (fold (\<lambda>i m. m(EventID (es ! i) \<mapsto> at i)) [0..<n] m) =
          dom m \<union> EventID ` set (take n es)"
    proof (induction n)
      case 0
      then show ?case by simp
    next
      case (Suc n)
      from Suc.prems have n: "n < length es" and n': "n \<le> length es"
        by simp_all
      note IH = Suc.IH [OF n']
      from n have split: "set (take (Suc n) es) = insert (es ! n) (set (take n es))"
        by (simp add: take_Suc_conv_app_nth)
      have "dom (fold (\<lambda>i m. m(EventID (es ! i) \<mapsto> at i)) [0..<Suc n] m) =
              insert (EventID (es ! n)) (dom (fold (\<lambda>i m. m(EventID (es ! i) \<mapsto> at i)) [0..<n] m))"
        by simp
      also have "\<dots> = insert (EventID (es ! n)) (dom m \<union> EventID ` set (take n es))"
        by (simp only: IH)
      also have "\<dots> = dom m \<union> EventID ` set (take (Suc n) es)"
        by (simp only: split image_insert Un_insert_right)
      finally show ?case .
    qed
  qed
  from this [of "length es"] show ?thesis
    by (simp add: collect_def)
qed

lemma dom_eventsByID: "dom (eventsByID r) = EventID ` combined r"
  by (auto simp: eventsByID_def dom_collect combined_def)

lemma slots_combined: "p \<in> slots r \<Longrightarrow> deref r p \<in> combined r"
  by (auto simp: slots_def combined_def)

lemma indexed_combined: "indexed r \<subseteq> combined r"
proof
  fix e assume "e \<in> indexed r"
  then obtain p k where "e = deref r p" "eventsByID r k = Some p"
    by (auto simp: indexed_def ran_def)
  with eventsByID_slot [of r k p] show "e \<in> combined r"
    by (simp add: slots_combined)
qed

lemma EventID_indexed: "EventID ` indexed r = dom (eventsByID r)"
proof
  show "EventID ` indexed r \<subseteq> dom (eventsByID r)"
  proof
    fix k assume "k \<in> EventID ` indexed r"
    then obtain p where "p \<in> ran (eventsByID r)" "k = EventID (deref r p)"
      by (auto simp: indexed_def)
    with ran_slot [of p r] show "k \<in> dom (eventsByID r)"
      by auto
  qed
next
  show "dom (eventsByID r) \<subseteq> EventID ` indexed r"
  proof
    fix k assume "k \<in> dom (eventsByID r)"
    then obtain p where p: "eventsByID r k = Some p" by auto
    then have "p \<in> ran (eventsByID r)" by (auto simp: ran_def)
    with eventsByID_slot [OF p] show "k \<in> EventID ` indexed r"
      by (auto simp: indexed_def)
  qed
qed

lemma references_mono: "es \<subseteq> es' \<Longrightarrow> references es \<subseteq> references es'"
  unfolding references_def by blast

lemma distinct_EventID_indexed:
  assumes "distinct os" and "set os \<subseteq> ran (eventsByID r)"
  shows "distinct (map EventID (map (deref r) os))"
proof -
  have "inj_on (\<lambda>p. EventID (deref r p)) (set os)"
  proof (rule inj_onI)
    fix p q assume "p \<in> set os" "q \<in> set os" "EventID (deref r p) = EventID (deref r q)"
    with assms(2) ran_slot [of p r] ran_slot [of q r] show "p = q"
      by (metis option.inject subsetD)
  qed
  with assms(1) show ?thesis
    by (simp add: distinct_map comp_def)
qed

lemma takeWhile_position:
  "distinct xs \<Longrightarrow> j < length xs \<Longrightarrow> length (takeWhile (\<lambda>x. x \<noteq> xs ! j) xs) = j"
proof (induction xs arbitrary: j)
  case Nil
  then show ?case by simp
next
  case (Cons x xs)
  then show ?case
    by (cases j) auto
qed

lemma authEventsFirst_acyclic:
  assumes first: "authEventsFirst es" and dist: "distinct (map EventID es)"
  shows "acyclic (references (set es))"
proof -
  let ?pos = "\<lambda>k. length (takeWhile (\<lambda>x. x \<noteq> k) (map EventID es))"
  have "(references (set es))\<inverse> \<subseteq> measure ?pos"
  proof
    fix x assume "x \<in> (references (set es))\<inverse>"
    then obtain a b where x: "x = (b, a)" and ab: "(a, b) \<in> references (set es)"
      by auto
    from ab obtain e ref where "e \<in> set es" and ref: "ref \<in> set (AuthEvents e)"
        and a: "a = EventID e" and b: "b = ref_EventID ref"
      unfolding references_iff by blast
    then obtain j where j: "j < length es" "es ! j = e"
      by (auto simp: in_set_conv_nth)
    with first ref obtain i where i: "i < j" "EventID (es ! i) = ref_EventID ref"
      unfolding authEventsFirst_def by blast
    from j have "?pos a = j"
      using takeWhile_position [OF dist, of j] a by simp
    moreover from i j have "?pos b = i"
      using takeWhile_position [OF dist, of i] b by simp
    ultimately show "x \<in> measure ?pos"
      using i(1) x by simp
  qed
  then have "wf ((references (set es))\<inverse>)"
    by (rule wf_subset [OF wf_measure])
  then have "acyclic ((references (set es))\<inverse>)"
    by (rule wf_acyclic)
  then show ?thesis
    by simp
qed

lemma references_scenarioA: "references (combined scenarioA) = {(''$join'', ''$create'')}"
  by (auto simp: references_iff combined_def scenarioA_def createEvent_def joinEvent0_def)

section \<open>Properties of \<^verbatim>\<open>RespState.Events\<close>\<close>

text \<open>
  C1. Let the combined state and authorization-chain events of a response have acyclic
  \<^verbatim>\<open>AuthEvents\<close> references that all resolve within the combined set, and let the
  runtime range over the keys of \<open>eventsByID\<close> in any order \<open>keys\<close>. Then \<open>Events\<close>
  succeeds; the identifiers of the returned events are pairwise distinct and are exactly
  the identifiers of the input, so an event that is both a state event and in the
  authorization chain is returned once; every returned event is an event of the input;
  and every reference of a returned event is the identifier of an event returned
  strictly before it. For the empty response the identifier set is empty, hence so is the
  result.
\<close>

theorem Events_orders_resolvable_acyclic_input:
  assumes keys: "set keys = dom (eventsByID r)"
    and acyc: "acyclic (references (combined r))"
    and gaps: "gapFree (combined r)"
  shows "\<exists>es. Events keys r = (es, None) \<and>
           distinct (map EventID es) \<and>
           EventID ` set es = EventID ` combined r \<and>
           set es \<subseteq> combined r \<and>
           authEventsFirst es"
proof (cases "Events keys r")
  case (Pair es err)
  show ?thesis
  proof (cases err)
    case None
    with Pair Events_spec [OF keys] obtain os where first: "authEventsFirst es"
        and os: "es = map (deref r) os" "distinct os" "set os = ran (eventsByID r)"
      by auto
    from os have dist: "distinct (map EventID es)"
      using distinct_EventID_indexed [of os r] by simp
    from os have set_es: "set es = indexed r"
      by (simp add: indexed_def)
    then have "EventID ` set es = EventID ` combined r"
      by (simp add: EventID_indexed dom_eventsByID)
    with Pair None first dist set_es indexed_combined [of r] show ?thesis
      by simp
  next
    case (Some e)
    with Pair Events_spec [OF keys] have "order_fail r e"
      by simp
    then show ?thesis
      unfolding order_fail_def
    proof
      assume "\<exists>p\<in>ran (eventsByID r). \<exists>ref\<in>set (AuthEvents (deref r p)).
         e = MissingAuthEvent (ref_EventID ref) (EventID (deref r p)) \<and>
         eventsByID r (ref_EventID ref) = None"
      then obtain p ref where p: "p \<in> ran (eventsByID r)" "ref \<in> set (AuthEvents (deref r p))"
          "eventsByID r (ref_EventID ref) = None"
        by blast
      from p(1) indexed_combined [of r] have "deref r p \<in> combined r"
        by (auto simp: indexed_def)
      with p(2) have "(EventID (deref r p), ref_EventID ref) \<in> references (combined r)"
        unfolding references_iff by blast
      with gaps have "ref_EventID ref \<in> EventID ` combined r"
        unfolding gapFree_def by force
      with p(3) show ?thesis
        by (simp add: dom_eventsByID [symmetric] domIff)
    next
      assume "\<exists>k. e = AuthEventCycle k \<and> (k, k) \<in> (references (indexed r))\<^sup>+"
      then obtain k where "(k, k) \<in> (references (indexed r))\<^sup>+"
        by blast
      with trancl_mono [OF _ references_mono [OF indexed_combined]]
      have "(k, k) \<in> (references (combined r))\<^sup>+"
        by blast
      with acyc show ?thesis
        by (simp add: acyclic_def)
    qed
  qed
qed

theorem Events_orders_witness:
  "set [''$join'', ''$create''] = dom (eventsByID scenarioA) \<and>
   acyclic (references (combined scenarioA)) \<and>
   gapFree (combined scenarioA) \<and>
   (\<exists>es. Events [''$join'', ''$create''] scenarioA = (es, None) \<and>
      distinct (map EventID es) \<and> EventID ` set es = EventID ` combined scenarioA \<and>
      set es \<subseteq> combined scenarioA \<and> authEventsFirst es) \<and>
   Events [''$join'', ''$create''] scenarioA = ([createEvent, joinEvent0], None) \<and>
   (\<exists>es. Events [] \<lparr>StateEvents = [], AuthChain = []\<rparr> = (es, None) \<and>
      EventID ` set es = EventID ` combined \<lparr>StateEvents = [], AuthChain = []\<rparr>) \<and>
   Events [] \<lparr>StateEvents = [], AuthChain = []\<rparr> = ([], None)"
proof -
  have keys: "set [''$join'', ''$create''] = dom (eventsByID scenarioA)"
    by (auto simp: dom_eventsByID combined_def scenarioA_def createEvent_def joinEvent0_def)
  have acyc: "acyclic (references (combined scenarioA))"
    by (simp add: references_scenarioA acyclic_insert wf_acyclic)
  have gaps: "gapFree (combined scenarioA)"
    unfolding gapFree_def references_scenarioA
    by (simp add: combined_def scenarioA_def createEvent_def joinEvent0_def)
  note main = Events_orders_resolvable_acyclic_input [OF keys acyc gaps]
  have run: "Events [''$join'', ''$create''] scenarioA = ([createEvent, joinEvent0], None)"
    by (simp add: Events_def eventsByID_def collect_def scenarioA_def createEvent_def joinEvent0_def)
  let ?e = "\<lparr>StateEvents = [], AuthChain = []\<rparr>"
  have keys0: "set [] = dom (eventsByID ?e)"
    by (simp add: dom_eventsByID combined_def)
  have acyc0: "acyclic (references (combined ?e))"
    by (simp add: references_def combined_def acyclic_def)
  have gaps0: "gapFree (combined ?e)"
    by (simp add: gapFree_def references_def combined_def)
  from Events_orders_resolvable_acyclic_input [OF keys0 acyc0 gaps0]
  have empty: "\<exists>es. Events [] ?e = (es, None) \<and> EventID ` set es = EventID ` combined ?e"
    by blast
  then have run0: "Events [] ?e = ([], None)"
    by (auto simp: combined_def)
  from keys acyc gaps main run empty run0 show ?thesis
    by blast
qed

section \<open>Failures of the ordering\<close>

lemma indexed_referenceI:
  assumes "eventsByID r k = Some p" and "ref \<in> set (AuthEvents (deref r p))"
  shows "(k, ref_EventID ref) \<in> references (indexed r)"
proof -
  from assms(1) have "deref r p \<in> indexed r"
    by (auto simp: indexed_def ran_def)
  moreover from eventsByID_slot [OF assms(1)] have "EventID (deref r p) = k"
    by simp
  ultimately show ?thesis
    using assms(2) unfolding references_iff by blast
qed

lemma gapFree_indexed:
  assumes "gapFree (combined r)"
  shows "gapFree (indexed r)"
proof -
  have "snd ` references (indexed r) \<subseteq> snd ` references (combined r)"
    using references_mono [OF indexed_combined [of r]] by blast
  also from assms have "\<dots> \<subseteq> EventID ` combined r"
    by (simp add: gapFree_def)
  also have "\<dots> = EventID ` indexed r"
    by (simp add: EventID_indexed dom_eventsByID)
  finally show ?thesis
    by (simp add: gapFree_def)
qed

lemma Events_Some_order_fail:
  assumes "set keys = dom (eventsByID r)" and "Events keys r = (es, Some e)"
  shows "es = [] \<and> order_fail r e"
  using Events_spec [OF assms(1)] assms(2) by simp

lemma Events_None_acyclic_gapFree:
  assumes keys: "set keys = dom (eventsByID r)" and run: "Events keys r = (es, None)"
  shows "acyclic (references (indexed r)) \<and> gapFree (indexed r)"
proof -
  from Events_spec [OF keys] run obtain os where first: "authEventsFirst es"
      and os: "es = map (deref r) os" "distinct os" "set os = ran (eventsByID r)"
    by auto
  from os have dist: "distinct (map EventID es)"
    using distinct_EventID_indexed [of os r] by simp
  from os have set_es: "set es = indexed r"
    by (simp add: indexed_def)
  from authEventsFirst_acyclic [OF first dist] set_es have "acyclic (references (indexed r))"
    by simp
  moreover have "gapFree (indexed r)"
    unfolding gapFree_def
  proof
    fix k assume "k \<in> snd ` references (indexed r)"
    then obtain e ref where e: "e \<in> set es" "ref \<in> set (AuthEvents e)" "k = ref_EventID ref"
      unfolding set_es [symmetric] references_def by force
    from e(1) obtain j where j: "j < length es" "es ! j = e"
      by (auto simp: in_set_conv_nth)
    with first e(2) obtain i where "i < j" "EventID (es ! i) = ref_EventID ref"
      unfolding authEventsFirst_def by blast
    with j(1) e(3) have "k \<in> EventID ` set es"
      by (metis image_eqI nth_mem order.strict_trans)
    then show "k \<in> EventID ` indexed r"
      by (simp add: set_es)
  qed
  ultimately show ?thesis ..
qed

text \<open>
  C2, amended. Let every \<^verbatim>\<open>AuthEvents\<close> reference of the indexed events (the event
  \<open>eventsByID\<close> keeps for each identifier) resolve, and let these references contain a
  cycle; an event that references itself is a cycle of length one. Then, in whatever
  order the runtime ranges over the map, \<open>Events\<close> fails with \<open>AuthEventCycle\<close>, the
  identifier named lies on a cycle, and the event list returned is empty. Without the
  first hypothesis the statement fails: an unresolvable reference met before the cycle
  is closed is reported as \<open>MissingAuthEvent\<close> instead, as the counterexample shows for
  an event whose references are a missing identifier followed by the event itself.
\<close>

theorem Events_reports_cycle:
  assumes keys: "set keys = dom (eventsByID r)"
    and gaps: "gapFree (indexed r)"
    and cyc: "\<not> acyclic (references (indexed r))"
  shows "\<exists>k. Events keys r = ([], Some (AuthEventCycle k)) \<and> (k, k) \<in> (references (indexed r))\<^sup>+"
proof (cases "Events keys r")
  case (Pair es err)
  show ?thesis
  proof (cases err)
    case None
    with Pair Events_None_acyclic_gapFree [OF keys] cyc show ?thesis
      by simp
  next
    case (Some e)
    with Pair Events_Some_order_fail [OF keys] have es: "es = []" and "order_fail r e"
      by simp_all
    from this(2) show ?thesis
      unfolding order_fail_def
    proof
      assume "\<exists>p\<in>ran (eventsByID r). \<exists>ref\<in>set (AuthEvents (deref r p)).
         e = MissingAuthEvent (ref_EventID ref) (EventID (deref r p)) \<and>
         eventsByID r (ref_EventID ref) = None"
      then obtain p ref where p: "p \<in> ran (eventsByID r)" "ref \<in> set (AuthEvents (deref r p))"
          "eventsByID r (ref_EventID ref) = None"
        by blast
      from indexed_referenceI [OF ran_slot [OF p(1)] p(2)] gaps
      have "ref_EventID ref \<in> EventID ` indexed r"
        unfolding gapFree_def by force
      with p(3) show ?thesis
        by (simp add: EventID_indexed domIff)
    next
      assume "\<exists>k. e = AuthEventCycle k \<and> (k, k) \<in> (references (indexed r))\<^sup>+"
      with Pair Some es show ?thesis
        by simp
    qed
  qed
qed

lemma Events_reports_gap:
  assumes keys: "set keys = dom (eventsByID r)"
    and acyc: "acyclic (references (indexed r))"
    and gap: "\<not> gapFree (indexed r)"
  shows "\<exists>x d. Events keys r = ([], Some (MissingAuthEvent x d)) \<and>
           (d, x) \<in> references (indexed r) \<and> x \<notin> EventID ` combined r"
proof (cases "Events keys r")
  case (Pair es err)
  show ?thesis
  proof (cases err)
    case None
    with Pair Events_None_acyclic_gapFree [OF keys] gap show ?thesis
      by simp
  next
    case (Some e)
    with Pair Events_Some_order_fail [OF keys] have es: "es = []" and "order_fail r e"
      by simp_all
    from this(2) show ?thesis
      unfolding order_fail_def
    proof
      assume "\<exists>p\<in>ran (eventsByID r). \<exists>ref\<in>set (AuthEvents (deref r p)).
         e = MissingAuthEvent (ref_EventID ref) (EventID (deref r p)) \<and>
         eventsByID r (ref_EventID ref) = None"
      then obtain p ref where p: "p \<in> ran (eventsByID r)" "ref \<in> set (AuthEvents (deref r p))"
          "e = MissingAuthEvent (ref_EventID ref) (EventID (deref r p))"
          "eventsByID r (ref_EventID ref) = None"
        by blast
      from indexed_referenceI [OF ran_slot [OF p(1)] p(2)]
      have "(EventID (deref r p), ref_EventID ref) \<in> references (indexed r)" .
      moreover from p(4) have "ref_EventID ref \<notin> EventID ` combined r"
        by (simp add: dom_eventsByID [symmetric] domIff)
      ultimately show ?thesis
        using Pair Some es p(3) by blast
    next
      assume "\<exists>k. e = AuthEventCycle k \<and> (k, k) \<in> (references (indexed r))\<^sup>+"
      with acyc show ?thesis
        by (auto simp: acyclic_def)
    qed
  qed
qed

theorem Events_cycle_counterexample:
  "set [''$x''] = dom (eventsByID \<lparr>StateEvents = [gapThenSelf], AuthChain = []\<rparr>) \<and>
   (''$x'', ''$x'') \<in> references (combined \<lparr>StateEvents = [gapThenSelf], AuthChain = []\<rparr>) \<and>
   Events [''$x''] \<lparr>StateEvents = [gapThenSelf], AuthChain = []\<rparr> =
     ([], Some (MissingAuthEvent ''$missing'' ''$x''))"
proof -
  have "set [''$x''] = dom (eventsByID \<lparr>StateEvents = [gapThenSelf], AuthChain = []\<rparr>)"
    by (simp add: dom_eventsByID combined_def gapThenSelf_def)
  moreover have "(''$x'', ''$x'') \<in> references (combined \<lparr>StateEvents = [gapThenSelf], AuthChain = []\<rparr>)"
    unfolding references_iff by (simp add: combined_def gapThenSelf_def)
  moreover have "Events [''$x''] \<lparr>StateEvents = [gapThenSelf], AuthChain = []\<rparr> =
     ([], Some (MissingAuthEvent ''$missing'' ''$x''))"
    by (simp add: Events_def eventsByID_def collect_def gapThenSelf_def)
  ultimately show ?thesis
    by blast
qed

theorem Events_reports_cycle_witness:
  "set [''$x'', ''$y''] = dom (eventsByID scenarioC) \<and>
   gapFree (indexed scenarioC) \<and>
   \<not> acyclic (references (indexed scenarioC)) \<and>
   (\<exists>k. Events [''$x'', ''$y''] scenarioC = ([], Some (AuthEventCycle k)) \<and>
        (k, k) \<in> (references (indexed scenarioC))\<^sup>+) \<and>
   Events [''$x'', ''$y''] scenarioC = ([], Some (AuthEventCycle ''$y''))"
proof -
  have keys: "set [''$x'', ''$y''] = dom (eventsByID scenarioC)"
    by (auto simp: dom_eventsByID combined_def scenarioC_def cycleX_def cycleY_def)
  have "gapFree (combined scenarioC)"
    unfolding gapFree_def references_def
    by (auto simp: combined_def scenarioC_def cycleX_def cycleY_def)
  then have gaps: "gapFree (indexed scenarioC)"
    by (rule gapFree_indexed)
  have x: "eventsByID scenarioC ''$x'' = Some (StateEventsAt 0)"
    and y: "eventsByID scenarioC ''$y'' = Some (StateEventsAt 1)"
    by (simp_all add: eventsByID_def collect_def scenarioC_def cycleX_def cycleY_def)
  have "(''$x'', ''$y'') \<in> references (indexed scenarioC)"
    using indexed_referenceI [OF x, of "\<lparr>ref_EventID = ''$y'', ref_EventSHA256 = ''''\<rparr>"]
    by (simp add: scenarioC_def cycleX_def)
  moreover have "(''$y'', ''$x'') \<in> references (indexed scenarioC)"
    using indexed_referenceI [OF y, of "\<lparr>ref_EventID = ''$x'', ref_EventSHA256 = ''''\<rparr>"]
    by (simp add: scenarioC_def cycleY_def)
  ultimately have "(''$x'', ''$x'') \<in> (references (indexed scenarioC))\<^sup>+"
    by (rule trancl_into_trancl [OF r_into_trancl])
  then have cyc: "\<not> acyclic (references (indexed scenarioC))"
    by (auto simp: acyclic_def)
  note main = Events_reports_cycle [OF keys gaps cyc]
  have run: "Events [''$x'', ''$y''] scenarioC = ([], Some (AuthEventCycle ''$y''))"
    by (simp add: Events_def eventsByID_def collect_def scenarioC_def cycleX_def cycleY_def)
  from keys gaps cyc main run show ?thesis
    by blast
qed

section \<open>The checks of \<^verbatim>\<open>RespState.Check\<close>\<close>

lemma checkAuthChain_ok:
  "\<forall>event\<in>set events. StateKey event \<noteq> None \<Longrightarrow>
     checkAuthChain events allEvents = Inr (allEvents @ events)"
  by (induction events arbitrary: allEvents) auto

lemma checkAuthChain_Inr:
  "checkAuthChain events allEvents = Inr allEvents' \<Longrightarrow>
     \<forall>event\<in>set events. StateKey event \<noteq> None"
  by (induction events arbitrary: allEvents) (auto split: if_splits)

lemma checkStateEvents_ok:
  "\<forall>event\<in>set events. StateKey event \<noteq> None \<Longrightarrow>
   distinct (map stateKeyTuple events) \<Longrightarrow>
   stateKeyTuple ` set events \<inter> stateTuples = {} \<Longrightarrow>
     checkStateEvents events stateTuples allEvents = Inr (allEvents @ events)"
proof (induction events arbitrary: stateTuples allEvents)
  case Nil
  then show ?case by simp
next
  case (Cons event events)
  from Cons.prems obtain k where k: "StateKey event = Some k"
    by auto
  then have tuple: "stateKeyTuple event = (Type event, k)"
    by (simp add: stateKeyTuple_def)
  from Cons.prems tuple have new: "(Type event, k) \<notin> stateTuples"
    by auto
  from Cons.prems tuple
  have "stateKeyTuple ` set events \<inter> insert (Type event, k) stateTuples = {}"
    by auto
  with Cons.IH [of "insert (Type event, k) stateTuples" "allEvents @ [event]"] Cons.prems
  have "checkStateEvents events (insert (Type event, k) stateTuples) (allEvents @ [event]) =
          Inr ((allEvents @ [event]) @ events)"
    by simp
  with k new show ?case
    by simp
qed

lemma checkStateEvents_Inr:
  "checkStateEvents events stateTuples allEvents = Inr allEvents' \<Longrightarrow>
     (\<forall>event\<in>set events. StateKey event \<noteq> None) \<and>
     distinct (map stateKeyTuple events) \<and>
     stateKeyTuple ` set events \<inter> stateTuples = {}"
proof (induction events arbitrary: stateTuples allEvents)
  case Nil
  then show ?case by simp
next
  case (Cons event events)
  from Cons.prems obtain k where k: "StateKey event = Some k"
    by (auto split: option.splits)
  then have tuple: "stateKeyTuple event = (Type event, k)"
    by (simp add: stateKeyTuple_def)
  from Cons.prems k have new: "(Type event, k) \<notin> stateTuples"
    and rest: "checkStateEvents events (insert (Type event, k) stateTuples) (allEvents @ [event]) =
                 Inr allEvents'"
    by (auto split: if_splits)
  from Cons.IH [OF rest] k tuple new show ?case
    by auto
qed


lemma checkStateEvents_duplicate_first:
  "\<forall>event\<in>set before. StateKey event \<noteq> None \<Longrightarrow>
   \<not> distinct (map stateKeyTuple before) \<or> stateKeyTuple ` set before \<inter> stateTuples \<noteq> {} \<Longrightarrow>
     \<exists>event\<in>set before. checkStateEvents (before @ rest) stateTuples allEvents =
        Inl (DuplicateStateKey (Type event) (the (StateKey event)))"
proof (induction before arbitrary: stateTuples allEvents)
  case Nil
  then show ?case by simp
next
  case (Cons event before)
  from Cons.prems obtain k where k: "StateKey event = Some k"
    by auto
  then have tuple: "stateKeyTuple event = (Type event, k)"
    by (simp add: stateKeyTuple_def)
  show ?case
  proof (cases "(Type event, k) \<in> stateTuples")
    case True
    with k show ?thesis
      by simp
  next
    case False
    from Cons.prems(2) tuple False
    have "\<not> distinct (map stateKeyTuple before) \<or>
          stateKeyTuple ` set before \<inter> insert (Type event, k) stateTuples \<noteq> {}"
      by auto
    with Cons.IH [of "insert (Type event, k) stateTuples" "allEvents @ [event]"] Cons.prems(1)
    have "\<exists>e\<in>set before.
            checkStateEvents (before @ rest) (insert (Type event, k) stateTuples) (allEvents @ [event]) =
              Inl (DuplicateStateKey (Type e) (the (StateKey e)))"
      by simp
    with k False show ?thesis
      by simp
  qed
qed

lemma checkStateEvents_not_state_event:
  "\<forall>e\<in>set before. StateKey e \<noteq> None \<Longrightarrow>
   distinct (map stateKeyTuple before) \<Longrightarrow>
   stateKeyTuple ` set before \<inter> stateTuples = {} \<Longrightarrow>
   StateKey event = None \<Longrightarrow>
     checkStateEvents (before @ event # after) stateTuples allEvents =
       Inl (NotStateEvent (EventID event))"
proof (induction before arbitrary: stateTuples allEvents)
  case Nil
  then show ?case by simp
next
  case (Cons b before)
  from Cons.prems obtain k where k: "StateKey b = Some k"
    by auto
  then have tuple: "stateKeyTuple b = (Type b, k)"
    by (simp add: stateKeyTuple_def)
  from Cons.prems tuple have new: "(Type b, k) \<notin> stateTuples"
    by auto
  from Cons.prems tuple
  have "stateKeyTuple ` set before \<inter> insert (Type b, k) stateTuples = {}"
    by auto
  with Cons.IH [of "insert (Type b, k) stateTuples" "allEvents @ [b]"] Cons.prems
  have "checkStateEvents (before @ event # after) (insert (Type b, k) stateTuples) (allEvents @ [b]) =
          Inl (NotStateEvent (EventID event))"
    by simp
  with k new show ?case
    by simp
qed

lemma Check_not_wellFormed:
  assumes "\<not> wellFormed r"
  shows "snd (Check c r log) = log \<and> fst (Check c r log) \<noteq> None"
proof (cases "checkAuthChain (AuthChain r) []")
  case (Inl e)
  then show ?thesis
    by (simp add: Check_def)
next
  case (Inr allEvents)
  from checkAuthChain_Inr [OF Inr] have auth: "\<forall>event\<in>set (AuthChain r). StateKey event \<noteq> None" .
  show ?thesis
  proof (cases "checkStateEvents (StateEvents r) {} allEvents")
    case (Inl e)
    with Inr show ?thesis
      by (simp add: Check_def)
  next
    case right: (Inr allEvents')
    from checkStateEvents_Inr [OF right] auth assms show ?thesis
      by (simp add: wellFormed_def)
  qed
qed

lemma Check_wellFormed:
  assumes "wellFormed r"
  shows "Check c r log =
     (case VerifyAllEventSignatures c (AuthChain r @ StateEvents r) of
        Some err \<Rightarrow> (Some (Propagated err), log @ [Verify (AuthChain r @ StateEvents r)])
      | None \<Rightarrow>
          checkAllAllowed c (indexByID (AuthChain r @ StateEvents r) Map.empty)
            (AuthChain r @ StateEvents r) (log @ [Verify (AuthChain r @ StateEvents r)]))"
proof -
  from assms have "checkAuthChain (AuthChain r) [] = Inr (AuthChain r)"
    using checkAuthChain_ok [of "AuthChain r" "[]"] by (simp add: wellFormed_def)
  moreover from assms
  have "checkStateEvents (StateEvents r) {} (AuthChain r) = Inr (AuthChain r @ StateEvents r)"
    using checkStateEvents_ok [of "StateEvents r" "{}" "AuthChain r"] by (simp add: wellFormed_def)
  ultimately show ?thesis
    by (simp add: Check_def)
qed

section \<open>The log of collaborator calls\<close>

lemma addAuthEvents_log:
  "\<exists>rest. snd (addAuthEvents c eventID byID refs authEvents log) = log @ rest \<and>
     (\<forall>x\<in>set rest. \<not> isVerify x)"
proof (induction refs arbitrary: authEvents log)
  case Nil
  then show ?case by simp
next
  case (Cons authRef refs)
  show ?case
  proof (cases "byID (ref_EventID authRef)")
    case None
    then show ?thesis by simp
  next
    case (Some authEvent)
    show ?thesis
    proof (cases "AddEvent c authEvents authEvent")
      case (Inl err)
      with Some show ?thesis by simp
    next
      case (Inr authEvents')
      from Cons.IH [of authEvents' "log @ [Add authEvents authEvent]"]
      obtain rest where "snd (addAuthEvents c eventID byID refs authEvents'
            (log @ [Add authEvents authEvent])) = (log @ [Add authEvents authEvent]) @ rest"
          "\<forall>x\<in>set rest. \<not> isVerify x"
        by blast
      with Some Inr show ?thesis
        by (intro exI [of _ "Add authEvents authEvent # rest"]) simp
    qed
  qed
qed

lemma checkAllowedByAuthEvents_log:
  "\<exists>rest. snd (checkAllowedByAuthEvents c event byID log) = log @ rest \<and>
     (\<forall>x\<in>set rest. \<not> isVerify x)"
proof -
  obtain res log' where run:
    "addAuthEvents c (EventID event) byID (AuthEvents event) (NewAuthEvents c) log = (res, log')"
    by (cases "addAuthEvents c (EventID event) byID (AuthEvents event) (NewAuthEvents c) log")
  with addAuthEvents_log [of c "EventID event" byID "AuthEvents event" "NewAuthEvents c" log]
  obtain rest where rest: "log' = log @ rest" "\<forall>x\<in>set rest. \<not> isVerify x"
    by auto
  show ?thesis
  proof (cases res)
    case (Inl e)
    with run rest show ?thesis
      by (simp add: checkAllowedByAuthEvents_def)
  next
    case (Inr authEvents)
    with run rest show ?thesis
      by (cases "Allowed c event authEvents")
        (auto simp: checkAllowedByAuthEvents_def intro!: exI [of _ "rest @ [Allow event authEvents]"])
  qed
qed

lemma checkAllAllowed_log:
  "\<exists>rest. snd (checkAllAllowed c byID events log) = log @ rest \<and>
     (\<forall>x\<in>set rest. \<not> isVerify x)"
proof (induction events arbitrary: log)
  case Nil
  then show ?case by simp
next
  case (Cons event events)
  obtain res log' where run: "checkAllowedByAuthEvents c event byID log = (res, log')"
    by (cases "checkAllowedByAuthEvents c event byID log")
  with checkAllowedByAuthEvents_log [of c event byID log]
  obtain rest where rest: "log' = log @ rest" "\<forall>x\<in>set rest. \<not> isVerify x"
    by auto
  show ?case
  proof (cases res)
    case (Some err)
    with run rest show ?thesis by simp
  next
    case None
    from Cons.IH [of log'] obtain rest' where
      "snd (checkAllAllowed c byID events log') = log' @ rest'" "\<forall>x\<in>set rest'. \<not> isVerify x"
      by blast
    with run rest None show ?thesis
      by (intro exI [of _ "rest @ rest'"]) auto
  qed
qed

section \<open>Properties of \<^verbatim>\<open>RespState.Check\<close>\<close>




text \<open>
  C5, amended. Presence of the state key and uniqueness of the tuple are checked in one
  pass over the state events, event by event. Let every event of the authorization
  chain have a state key, let a state event have none and let every state event before
  it have one. When no two state events before it share their \<open>StateKeyTuple\<close>,
  \<open>Check\<close> fails with \<open>NotStateEvent\<close> naming that event. When two state events before
  it share their tuple, the repeat is reported first: \<open>Check\<close> fails with
  \<open>DuplicateStateKey\<close> carrying the type and state key of a state event before it. In
  both cases no collaborator is called.
\<close>

theorem Check_not_state_event:
  assumes auth: "\<forall>e\<in>set (AuthChain r). StateKey e \<noteq> None"
    and split: "StateEvents r = before @ event # after"
    and missing: "StateKey event = None"
    and before: "\<forall>e\<in>set before. StateKey e \<noteq> None"
  shows "(distinct (map stateKeyTuple before) \<longrightarrow>
            Check c r log = (Some (NotStateEvent (EventID event)), log)) \<and>
         (\<not> distinct (map stateKeyTuple before) \<longrightarrow>
            (\<exists>e\<in>set before.
               Check c r log = (Some (DuplicateStateKey (Type e) (the (StateKey e))), log)))"
proof (intro conjI impI)
  from auth have chain: "checkAuthChain (AuthChain r) [] = Inr (AuthChain r)"
    using checkAuthChain_ok [of "AuthChain r" "[]"] by simp
  {
    assume unique: "distinct (map stateKeyTuple before)"
    have "checkStateEvents (StateEvents r) {} (AuthChain r) =
        Inl (NotStateEvent (EventID event))"
      unfolding split using before unique missing
      by (intro checkStateEvents_not_state_event) simp_all
    with chain show "Check c r log = (Some (NotStateEvent (EventID event)), log)"
      by (simp add: Check_def)
  }
  {
    assume repeated: "\<not> distinct (map stateKeyTuple before)"
    with checkStateEvents_duplicate_first [OF before, of "{}" "event # after" "AuthChain r"]
    obtain e where "e \<in> set before"
        "checkStateEvents (StateEvents r) {} (AuthChain r) =
           Inl (DuplicateStateKey (Type e) (the (StateKey e)))"
      unfolding split by blast
    with chain show "\<exists>e\<in>set before.
        Check c r log = (Some (DuplicateStateKey (Type e) (the (StateKey e))), log)"
      by (auto simp: Check_def)
  }
qed

theorem Check_not_state_event_counterexample:
  "StateKey message = None \<and>
   Check accept \<lparr>StateEvents = [powerOld, powerNew, message], AuthChain = []\<rparr> [] =
     (Some (DuplicateStateKey ''m.room.power_levels'' ''''), [])"
  by (simp add: message_def powerOld_def powerNew_def Check_def)

theorem Check_not_state_event_witness:
  "Check accept \<lparr>StateEvents = [createEvent, powerOld, message, powerNew],
                  AuthChain = [createEvent]\<rparr> [] =
     (Some (NotStateEvent ''$message''), []) \<and>
   (\<exists>e\<in>set [powerOld, createEvent, powerNew].
      Check accept \<lparr>StateEvents = [powerOld, createEvent, powerNew, message],
                     AuthChain = [createEvent]\<rparr> [] =
        (Some (DuplicateStateKey (Type e) (the (StateKey e))), [])) \<and>
   Check accept \<lparr>StateEvents = [powerOld, createEvent, powerNew, message],
                  AuthChain = [createEvent]\<rparr> [] =
     (Some (DuplicateStateKey ''m.room.power_levels'' ''''), [])"
proof -
  let ?r = "\<lparr>StateEvents = [createEvent, powerOld, message, powerNew], AuthChain = [createEvent]\<rparr>"
  let ?r' = "\<lparr>StateEvents = [powerOld, createEvent, powerNew, message], AuthChain = [createEvent]\<rparr>"
  have auth: "\<forall>e\<in>set (AuthChain ?r). StateKey e \<noteq> None"
    and auth': "\<forall>e\<in>set (AuthChain ?r'). StateKey e \<noteq> None"
    by (simp_all add: createEvent_def)
  have split: "StateEvents ?r = [createEvent, powerOld] @ message # [powerNew]"
    and split': "StateEvents ?r' = [powerOld, createEvent, powerNew] @ message # []"
    by simp_all
  have missing: "StateKey message = None"
    by (simp add: message_def)
  have before: "\<forall>e\<in>set [createEvent, powerOld]. StateKey e \<noteq> None"
    and before': "\<forall>e\<in>set [powerOld, createEvent, powerNew]. StateKey e \<noteq> None"
    by (simp_all add: createEvent_def powerOld_def powerNew_def)
  have unique: "distinct (map stateKeyTuple [createEvent, powerOld])"
    by (simp add: stateKeyTuple_def createEvent_def powerOld_def)
  have repeated: "\<not> distinct (map stateKeyTuple [powerOld, createEvent, powerNew])"
    by (simp add: stateKeyTuple_def createEvent_def powerOld_def powerNew_def)
  from Check_not_state_event [OF auth split missing before, of accept "[]"] unique
  have "Check accept ?r [] = (Some (NotStateEvent ''$message''), [])"
    by (simp add: message_def)
  moreover from Check_not_state_event [OF auth' split' missing before', of accept "[]"] repeated
  have "\<exists>e\<in>set [powerOld, createEvent, powerNew].
      Check accept ?r' [] = (Some (DuplicateStateKey (Type e) (the (StateKey e))), [])"
    by blast
  moreover have "Check accept ?r' [] = (Some (DuplicateStateKey ''m.room.power_levels'' ''''), [])"
    by (simp add: Check_def createEvent_def powerOld_def powerNew_def)
  ultimately show ?thesis
    by blast
qed

text \<open>
  C6, amended. When the checks of the state keys and of the repeated tuples pass,
  \<open>Check\<close> calls the signature verifier exactly once, first among the collaborators, on
  the events of the authorization chain followed by the state events; an event that is
  in both lists is in the batch twice. An error of the verifier is returned unchanged,
  and the verifier's call is then the only call made: no event is added to an
  authorization set and none is evaluated. When one of those checks fails, no
  collaborator is called at all.
\<close>

theorem Check_verifies_once:
  "(wellFormed r \<longrightarrow>
      (\<exists>rest. snd (Check c r log) = log @ Verify (AuthChain r @ StateEvents r) # rest \<and>
         (\<forall>x\<in>set rest. \<not> isVerify x)) \<and>
      (\<forall>err. VerifyAllEventSignatures c (AuthChain r @ StateEvents r) = Some err \<longrightarrow>
         Check c r log =
           (Some (Propagated err), log @ [Verify (AuthChain r @ StateEvents r)]))) \<and>
   (\<not> wellFormed r \<longrightarrow> snd (Check c r log) = log \<and> fst (Check c r log) \<noteq> None)"
proof (intro conjI impI allI)
  assume wf: "wellFormed r"
  let ?all = "AuthChain r @ StateEvents r"
  show "\<exists>rest. snd (Check c r log) = log @ Verify ?all # rest \<and> (\<forall>x\<in>set rest. \<not> isVerify x)"
  proof (cases "VerifyAllEventSignatures c ?all")
    case (Some err)
    with Check_wellFormed [OF wf, of c log] show ?thesis
      by simp
  next
    case None
    from checkAllAllowed_log [of c "indexByID ?all Map.empty" ?all "log @ [Verify ?all]"]
    obtain rest where
      "snd (checkAllAllowed c (indexByID ?all Map.empty) ?all (log @ [Verify ?all])) =
         (log @ [Verify ?all]) @ rest" "\<forall>x\<in>set rest. \<not> isVerify x"
      by blast
    with None Check_wellFormed [OF wf, of c log] show ?thesis
      by (intro exI [of _ rest]) simp
  qed
next
  fix err
  assume "wellFormed r" "VerifyAllEventSignatures c (AuthChain r @ StateEvents r) = Some err"
  then show "Check c r log = (Some (Propagated err), log @ [Verify (AuthChain r @ StateEvents r)])"
    by (simp add: Check_wellFormed)
next
  assume "\<not> wellFormed r"
  then show "snd (Check c r log) = log" "fst (Check c r log) \<noteq> None"
    by (simp_all add: Check_not_wellFormed)
qed

theorem Check_verifies_once_counterexample:
  "filter isVerify (snd (Check accept scenarioA [])) = [Verify [createEvent, createEvent, joinEvent0]]"
  by (simp add: Check_def accept_def scenarioA_def createEvent_def joinEvent0_def indexByID_def
      checkAllowedByAuthEvents_def)

theorem Check_verifies_once_witness:
  "wellFormed scenarioA \<and>
   VerifyAllEventSignatures rejectSignatures (AuthChain scenarioA @ StateEvents scenarioA) =
     Some ''bad signature'' \<and>
   Check rejectSignatures scenarioA [] =
     (Some (Propagated ''bad signature''), [Verify [createEvent, createEvent, joinEvent0]]) \<and>
   (\<exists>rest. snd (Check accept scenarioA []) = Verify [createEvent, createEvent, joinEvent0] # rest \<and>
      (\<forall>x\<in>set rest. \<not> isVerify x)) \<and>
   \<not> wellFormed \<lparr>StateEvents = [message], AuthChain = []\<rparr> \<and>
   snd (Check accept \<lparr>StateEvents = [message], AuthChain = []\<rparr> []) = []"
proof -
  have wf: "wellFormed scenarioA"
    by (simp add: wellFormed_def scenarioA_def createEvent_def joinEvent0_def stateKeyTuple_def)
  have rej: "VerifyAllEventSignatures rejectSignatures (AuthChain scenarioA @ StateEvents scenarioA) =
     Some ''bad signature''"
    by (simp add: rejectSignatures_def)
  have nwf: "\<not> wellFormed \<lparr>StateEvents = [message], AuthChain = []\<rparr>"
    by (simp add: wellFormed_def message_def)
  have all: "AuthChain scenarioA @ StateEvents scenarioA = [createEvent, createEvent, joinEvent0]"
    by (simp add: scenarioA_def)
  from Check_verifies_once [of scenarioA rejectSignatures "[]"] wf rej
  have "Check rejectSignatures scenarioA [] =
     (Some (Propagated ''bad signature''), [Verify [createEvent, createEvent, joinEvent0]])"
    by (simp add: all)
  moreover from Check_verifies_once [of scenarioA accept "[]"] wf
  have "\<exists>rest. snd (Check accept scenarioA []) = Verify [createEvent, createEvent, joinEvent0] # rest \<and>
      (\<forall>x\<in>set rest. \<not> isVerify x)"
    by (simp add: all)
  moreover from Check_verifies_once [of "\<lparr>StateEvents = [message], AuthChain = []\<rparr>" accept "[]"] nwf
  have "snd (Check accept \<lparr>StateEvents = [message], AuthChain = []\<rparr> []) = []"
    by simp
  ultimately show ?thesis
    using wf rej nwf by blast
qed

section \<open>The checks of \<^verbatim>\<open>RespSendJoin.Check\<close>\<close>

lemma addAuthEvents_fst:
  "fst (addAuthEvents c eventID byID refs authEvents log) =
   fst (addAuthEvents c eventID byID refs authEvents log')"
  by (induction refs arbitrary: authEvents log log') (auto split: option.splits sum.splits)

lemma checkAllowedByAuthEvents_fst:
  "fst (checkAllowedByAuthEvents c event byID log) = fst (checkAllowedByAuthEvents c event byID log')"
proof -
  obtain res l where a: "addAuthEvents c (EventID event) byID (AuthEvents event) (NewAuthEvents c) log = (res, l)"
    by (cases "addAuthEvents c (EventID event) byID (AuthEvents event) (NewAuthEvents c) log")
  obtain res' l' where b: "addAuthEvents c (EventID event) byID (AuthEvents event) (NewAuthEvents c) log' = (res', l')"
    by (cases "addAuthEvents c (EventID event) byID (AuthEvents event) (NewAuthEvents c) log'")
  from a b addAuthEvents_fst [of c "EventID event" byID "AuthEvents event" "NewAuthEvents c" log log']
  have "res = res'" by simp
  with a b show ?thesis
    by (auto simp: checkAllowedByAuthEvents_def split: sum.splits option.splits)
qed

lemma addAuthEvents_missing:
  "\<forall>ref\<in>set before. byID (ref_EventID ref) \<noteq> None \<Longrightarrow>
   accumulate c authEvents (map (\<lambda>ref. the (byID (ref_EventID ref))) before) = Inr authEvents' \<Longrightarrow>
   byID (ref_EventID d) = None \<Longrightarrow>
     fst (addAuthEvents c eventID byID (before @ d # after) authEvents log) =
       Inl (MissingAuthEvent (ref_EventID d) eventID)"
proof (induction before arbitrary: authEvents log)
  case Nil
  then show ?case by simp
next
  case (Cons ref before)
  from Cons.prems(1) obtain authEvent where found: "byID (ref_EventID ref) = Some authEvent"
    by auto
  with Cons.prems(2) obtain added where added: "AddEvent c authEvents authEvent = Inr added"
      and rest: "accumulate c added (map (\<lambda>ref. the (byID (ref_EventID ref))) before) = Inr authEvents'"
    by (auto split: sum.splits)
  from Cons.IH [OF _ rest Cons.prems(3)] Cons.prems(1)
  have "fst (addAuthEvents c eventID byID (before @ d # after) added (log @ [Add authEvents authEvent])) =
          Inl (MissingAuthEvent (ref_EventID d) eventID)"
    by simp
  with found added show ?case
    by simp
qed

lemma checkAllowedByAuthEvents_missing:
  assumes "AuthEvents event = before @ d # after"
    and "\<forall>ref\<in>set before. byID (ref_EventID ref) \<noteq> None"
    and "accumulate c (NewAuthEvents c) (map (\<lambda>ref. the (byID (ref_EventID ref))) before) = Inr own"
    and "byID (ref_EventID d) = None"
  shows "fst (checkAllowedByAuthEvents c event byID log) =
           Some (MissingAuthEvent (ref_EventID d) (EventID event))"
proof -
  from addAuthEvents_missing [OF assms(2,3,4), of "EventID event" after log]
  have "fst (addAuthEvents c (EventID event) byID (AuthEvents event) (NewAuthEvents c) log) =
          Inl (MissingAuthEvent (ref_EventID d) (EventID event))"
    by (simp add: assms(1))
  then show ?thesis
    by (cases "addAuthEvents c (EventID event) byID (AuthEvents event) (NewAuthEvents c) log")
      (simp add: checkAllowedByAuthEvents_def)
qed

lemma addStateEvents_fst:
  "fst (addStateEvents c events byID authEvents log) =
     (case accumulate c authEvents events of
        Inl err \<Rightarrow> Inl (Propagated err)
      | Inr authEvents' \<Rightarrow> Inr (indexByID events byID, authEvents'))"
  by (induction events arbitrary: byID authEvents log)
    (auto simp: indexByID_def split: sum.splits)

lemma dom_indexByID: "dom (indexByID events byID) = dom byID \<union> EventID ` set events"
  unfolding indexByID_def by (induction events arbitrary: byID) auto

lemma indexByID_None:
  "indexByID events Map.empty k = None \<longleftrightarrow> k \<notin> EventID ` set events"
  using dom_indexByID [of events Map.empty] by (auto simp: domIff)

lemma addAuthEvents_snd:
  "snd (addAuthEvents c eventID byID refs authEvents log) =
   log @ snd (addAuthEvents c eventID byID refs authEvents [])"
proof (induction refs arbitrary: authEvents log)
  case Nil
  then show ?case by simp
next
  case (Cons authRef refs)
  show ?case
  proof (cases "byID (ref_EventID authRef)")
    case None
    then show ?thesis by simp
  next
    case (Some authEvent)
    show ?thesis
    proof (cases "AddEvent c authEvents authEvent")
      case (Inl err)
      with Some show ?thesis by simp
    next
      case (Inr authEvents')
      from Cons.IH [of authEvents' "log @ [Add authEvents authEvent]"]
        Cons.IH [of authEvents' "[Add authEvents authEvent]"]
      have "snd (addAuthEvents c eventID byID refs authEvents' (log @ [Add authEvents authEvent])) =
            log @ snd (addAuthEvents c eventID byID refs authEvents' [Add authEvents authEvent])"
        by simp
      with Some Inr show ?thesis
        by simp
    qed
  qed
qed

lemma checkAllowedByAuthEvents_run:
  "checkAllowedByAuthEvents c event byID log =
     (fst (checkAllowedByAuthEvents c event byID []),
      log @ snd (checkAllowedByAuthEvents c event byID []))"
proof -
  obtain res l where a:
    "addAuthEvents c (EventID event) byID (AuthEvents event) (NewAuthEvents c) log = (res, l)"
    by (cases "addAuthEvents c (EventID event) byID (AuthEvents event) (NewAuthEvents c) log")
  obtain res' l' where b:
    "addAuthEvents c (EventID event) byID (AuthEvents event) (NewAuthEvents c) [] = (res', l')"
    by (cases "addAuthEvents c (EventID event) byID (AuthEvents event) (NewAuthEvents c) []")
  from a b addAuthEvents_fst [of c "EventID event" byID "AuthEvents event" "NewAuthEvents c" log "[]"]
  have res: "res = res'" by simp
  from a b addAuthEvents_snd [of c "EventID event" byID "AuthEvents event" "NewAuthEvents c" log]
  have l: "l = log @ l'" by simp
  from a b res l show ?thesis
    by (auto simp: checkAllowedByAuthEvents_def split: sum.splits option.splits)
qed

lemma addStateEvents_snd:
  "snd (addStateEvents c events byID authEvents log) = log @ addCalls c authEvents events"
  by (induction events arbitrary: byID authEvents log) (auto split: sum.splits)

lemma SendJoinCheck_run:
  assumes check: "Check c (ToRespState r) log = (None, log1)"
  shows "SendJoinCheck c r joinEvent log =
     (case accumulate c (NewAuthEvents c) (StateEvents r) of
        Inl err \<Rightarrow>
          (Some (Propagated err), log1 @ addCalls c (NewAuthEvents c) (StateEvents r))
      | Inr authEvents \<Rightarrow>
          (case checkAllowedByAuthEvents c joinEvent (indexByID (StateEvents r) Map.empty) [] of
             (Some e, ownLog) \<Rightarrow>
               (Some e, log1 @ addCalls c (NewAuthEvents c) (StateEvents r) @ ownLog)
           | (None, ownLog) \<Rightarrow>
               (case Allowed c joinEvent authEvents of
                  Some err \<Rightarrow>
                    (Some (NotAuthorizedBySuppliedState (EventID joinEvent) err),
                     log1 @ addCalls c (NewAuthEvents c) (StateEvents r) @ ownLog @
                       [Allow joinEvent authEvents])
                | None \<Rightarrow>
                    (None,
                     log1 @ addCalls c (NewAuthEvents c) (StateEvents r) @ ownLog @
                       [Allow joinEvent authEvents]))))"
proof -
  let ?adds = "addCalls c (NewAuthEvents c) (StateEvents r)"
  let ?byID = "indexByID (StateEvents r) Map.empty"
  have add: "addStateEvents c (StateEvents r) Map.empty (NewAuthEvents c) log1 =
     (case accumulate c (NewAuthEvents c) (StateEvents r) of
        Inl err \<Rightarrow> Inl (Propagated err)
      | Inr authEvents' \<Rightarrow> Inr (?byID, authEvents'),
      log1 @ ?adds)"
    using addStateEvents_fst [of c "StateEvents r" Map.empty "NewAuthEvents c" log1]
      addStateEvents_snd [of c "StateEvents r" Map.empty "NewAuthEvents c" log1]
    by (cases "addStateEvents c (StateEvents r) Map.empty (NewAuthEvents c) log1") simp
  show ?thesis
  proof (cases "accumulate c (NewAuthEvents c) (StateEvents r)")
    case (Inl err)
    with check add show ?thesis
      by (simp add: SendJoinCheck_def)
  next
    case (Inr authEvents)
    obtain own ownLog where own: "checkAllowedByAuthEvents c joinEvent ?byID [] = (own, ownLog)"
      by (cases "checkAllowedByAuthEvents c joinEvent ?byID []")
    with checkAllowedByAuthEvents_run [of c joinEvent ?byID "log1 @ ?adds"]
    have "checkAllowedByAuthEvents c joinEvent ?byID (log1 @ ?adds) = (own, (log1 @ ?adds) @ ownLog)"
      by simp
    with check add Inr own show ?thesis
      by (simp add: SendJoinCheck_def split: option.splits)
  qed
qed

lemma SendJoinCheck_fst:
  assumes "fst (Check c (ToRespState r) log) = None"
  shows "fst (SendJoinCheck c r joinEvent log) =
     (case accumulate c (NewAuthEvents c) (StateEvents r) of
        Inl err \<Rightarrow> Some (Propagated err)
      | Inr authEvents \<Rightarrow>
          (case fst (checkAllowedByAuthEvents c joinEvent (indexByID (StateEvents r) Map.empty) []) of
             Some e \<Rightarrow> Some e
           | None \<Rightarrow>
               (case Allowed c joinEvent authEvents of
                  Some err \<Rightarrow> Some (NotAuthorizedBySuppliedState (EventID joinEvent) err)
                | None \<Rightarrow> None)))"
proof -
  obtain log1 where check: "Check c (ToRespState r) log = (None, log1)"
    using assms by (cases "Check c (ToRespState r) log") simp
  obtain built log2 where add:
    "addStateEvents c (StateEvents r) Map.empty (NewAuthEvents c) log1 = (built, log2)"
    by (cases "addStateEvents c (StateEvents r) Map.empty (NewAuthEvents c) log1")
  from addStateEvents_fst [of c "StateEvents r" Map.empty "NewAuthEvents c" log1] add
  have built: "built =
     (case accumulate c (NewAuthEvents c) (StateEvents r) of
        Inl err \<Rightarrow> Inl (Propagated err)
      | Inr authEvents' \<Rightarrow> Inr (indexByID (StateEvents r) Map.empty, authEvents'))"
    by simp
  show ?thesis
  proof (cases "accumulate c (NewAuthEvents c) (StateEvents r)")
    case (Inl err)
    with check add built show ?thesis
      by (simp add: SendJoinCheck_def)
  next
    case (Inr authEvents)
    let ?byID = "indexByID (StateEvents r) Map.empty"
    obtain own log3 where own: "checkAllowedByAuthEvents c joinEvent ?byID log2 = (own, log3)"
      by (cases "checkAllowedByAuthEvents c joinEvent ?byID log2")
    with checkAllowedByAuthEvents_fst [of c joinEvent ?byID log2 "[]"]
    have "fst (checkAllowedByAuthEvents c joinEvent ?byID []) = own"
      by simp
    with check add built Inr own show ?thesis
      by (simp add: SendJoinCheck_def split: option.splits)
  qed
qed

section \<open>Missing authorization events\<close>

text \<open>
  C3, amended. In \<open>Events\<close>: when the references of the indexed events contain no cycle
  and one of them does not resolve, \<open>Events\<close> fails, in whatever order the runtime ranges
  over the map, with \<open>MissingAuthEvent\<close> naming an identifier that no event of the
  response has and the identifier of an indexed event that references it. In
  \<open>checkAllowedByAuthEvents\<close>: when a reference of the event is absent from the index
  supplied, every reference before it is present and the builder accepts the events
  they name, the check fails with \<open>MissingAuthEvent\<close> naming the absent identifier and
  the identifier of the event. The references are scanned in order and the scan stops at
  the first failure, so a cycle closed, or an event rejected by the builder, before the
  absent reference is reached is reported instead: in the counterexample an event
  references itself and then a missing identifier, and \<open>Events\<close> reports the cycle.
\<close>

theorem missing_auth_event_reported:
  "(set keys = dom (eventsByID r) \<and> acyclic (references (indexed r)) \<and> \<not> gapFree (indexed r) \<longrightarrow>
      (\<exists>x d. Events keys r = ([], Some (MissingAuthEvent x d)) \<and>
         (d, x) \<in> references (indexed r) \<and> x \<notin> EventID ` combined r)) \<and>
   (AuthEvents event = before @ d # after \<and>
    (\<forall>ref\<in>set before. byID (ref_EventID ref) \<noteq> None) \<and>
    accumulate c (NewAuthEvents c) (map (\<lambda>ref. the (byID (ref_EventID ref))) before) = Inr own \<and>
    byID (ref_EventID d) = None \<longrightarrow>
      fst (checkAllowedByAuthEvents c event byID log) =
        Some (MissingAuthEvent (ref_EventID d) (EventID event)))"
  using Events_reports_gap [of keys r]
    checkAllowedByAuthEvents_missing [of event before d after byID c own log]
  by blast

theorem missing_auth_event_counterexample:
  "set [''$x''] = dom (eventsByID \<lparr>StateEvents = [selfThenGap], AuthChain = []\<rparr>) \<and>
   (''$x'', ''$missing'') \<in> references (combined \<lparr>StateEvents = [selfThenGap], AuthChain = []\<rparr>) \<and>
   eventsByID \<lparr>StateEvents = [selfThenGap], AuthChain = []\<rparr> ''$missing'' = None \<and>
   Events [''$x''] \<lparr>StateEvents = [selfThenGap], AuthChain = []\<rparr> =
     ([], Some (AuthEventCycle ''$x''))"
proof -
  have "set [''$x''] = dom (eventsByID \<lparr>StateEvents = [selfThenGap], AuthChain = []\<rparr>)"
    by (simp add: dom_eventsByID combined_def selfThenGap_def)
  moreover have "(''$x'', ''$missing'') \<in> references (combined \<lparr>StateEvents = [selfThenGap], AuthChain = []\<rparr>)"
    unfolding references_iff by (simp add: combined_def selfThenGap_def)
  moreover have "eventsByID \<lparr>StateEvents = [selfThenGap], AuthChain = []\<rparr> ''$missing'' = None"
    by (simp add: eventsByID_def collect_def selfThenGap_def)
  moreover have "Events [''$x''] \<lparr>StateEvents = [selfThenGap], AuthChain = []\<rparr> =
     ([], Some (AuthEventCycle ''$x''))"
    by (simp add: Events_def eventsByID_def collect_def selfThenGap_def)
  ultimately show ?thesis
    by blast
qed

theorem missing_auth_event_witness:
  "set [''$join''] = dom (eventsByID scenarioB) \<and>
   acyclic (references (indexed scenarioB)) \<and>
   \<not> gapFree (indexed scenarioB) \<and>
   Events [''$join''] scenarioB = ([], Some (MissingAuthEvent ''$missing'' ''$join'')) \<and>
   fst (checkAllowedByAuthEvents accept powerJoin (indexByID [createEvent] Map.empty) []) =
     Some (MissingAuthEvent ''$power1'' ''$join'')"
proof -
  have keys: "set [''$join''] = dom (eventsByID scenarioB)"
    by (simp add: dom_eventsByID combined_def scenarioB_def gapJoin_def)
  have refs: "references (combined scenarioB) = {(''$join'', ''$missing'')}"
    by (auto simp: references_iff combined_def scenarioB_def gapJoin_def)
  have "acyclic (references (combined scenarioB))"
    by (simp add: refs acyclic_insert wf_acyclic)
  then have acyc: "acyclic (references (indexed scenarioB))"
    by (rule acyclic_subset [OF _ references_mono [OF indexed_combined]])
  have j: "eventsByID scenarioB ''$join'' = Some (StateEventsAt 0)"
    by (simp add: eventsByID_def collect_def scenarioB_def gapJoin_def)
  have "(''$join'', ''$missing'') \<in> references (indexed scenarioB)"
    using indexed_referenceI [OF j, of "\<lparr>ref_EventID = ''$missing'', ref_EventSHA256 = ''''\<rparr>"]
    by (simp add: scenarioB_def gapJoin_def)
  then have "''$missing'' \<in> snd ` references (indexed scenarioB)"
    by force
  moreover have "''$missing'' \<notin> EventID ` indexed scenarioB"
    by (simp add: EventID_indexed dom_eventsByID combined_def scenarioB_def gapJoin_def)
  ultimately have gap: "\<not> gapFree (indexed scenarioB)"
    unfolding gapFree_def by blast
  let ?byID = "indexByID [createEvent] Map.empty"
  let ?before = "[\<lparr>ref_EventID = ''$create'', ref_EventSHA256 = ''''\<rparr>]"
  let ?d = "\<lparr>ref_EventID = ''$power1'', ref_EventSHA256 = ''''\<rparr>"
  have deps: "AuthEvents powerJoin = ?before @ ?d # []"
    by (simp add: powerJoin_def)
  have found: "\<forall>ref\<in>set ?before. ?byID (ref_EventID ref) \<noteq> None"
    by (simp add: indexByID_def createEvent_def)
  have added: "accumulate accept (NewAuthEvents accept)
      (map (\<lambda>ref. the (?byID (ref_EventID ref))) ?before) = Inr ()"
    by (simp add: accept_def)
  have absent: "?byID (ref_EventID ?d) = None"
    by (simp add: indexByID_def createEvent_def)
  note main = missing_auth_event_reported
    [of "[''$join'']" scenarioB powerJoin ?before ?d "[]" ?byID accept "()" "[]"]
  from main keys acyc gap
  obtain x d where run: "Events [''$join''] scenarioB = ([], Some (MissingAuthEvent x d))"
    by blast
  moreover have "Events [''$join''] scenarioB = ([], Some (MissingAuthEvent ''$missing'' ''$join''))"
    by (simp add: Events_def eventsByID_def collect_def scenarioB_def gapJoin_def)
  moreover from main deps found added absent
  have "fst (checkAllowedByAuthEvents accept powerJoin ?byID []) =
     Some (MissingAuthEvent ''$power1'' ''$join'')"
    by (simp add: powerJoin_def)
  ultimately show ?thesis
    using keys acyc gap by blast
qed

section \<open>Properties of \<^verbatim>\<open>RespSendJoin.Check\<close>\<close>

text \<open>
  C7, amended. \<open>RespSendJoin.Check\<close> reports the first failure in the order of its code.
  After the checks of the state response have passed, with the calls \<open>log1\<close> made, one
  loop over the state events fills the index and adds every state event to the
  authorization set, and only then is the join event checked against its own
  authorization events. So when the builder rejects a state event, its error is
  returned, whatever the check of the join event against its own dependencies would
  report, and the calls made are those of the state response followed by the calls of
  the builder up to the rejected event: the join event is not checked at all. And when
  the builder accepts every state event and the check of the join event against its own
  dependencies fails, the error of that check is returned, and the calls made are those
  of the state response, of the builder for every state event and of that check, and no
  more: the evaluator is not asked about the accumulated state.
\<close>

theorem SendJoinCheck_order:
  "Check c (ToRespState r) log = (None, log1) \<longrightarrow>
     (\<forall>err. accumulate c (NewAuthEvents c) (StateEvents r) = Inl err \<longrightarrow>
        SendJoinCheck c r joinEvent log =
          (Some (Propagated err), log1 @ addCalls c (NewAuthEvents c) (StateEvents r))) \<and>
     (\<forall>authEvents e ownLog.
        accumulate c (NewAuthEvents c) (StateEvents r) = Inr authEvents \<and>
        checkAllowedByAuthEvents c joinEvent (indexByID (StateEvents r) Map.empty) [] =
          (Some e, ownLog) \<longrightarrow>
        SendJoinCheck c r joinEvent log =
          (Some e, log1 @ addCalls c (NewAuthEvents c) (StateEvents r) @ ownLog))"
  by (auto simp: SendJoinCheck_run)

theorem SendJoinCheck_order_counterexample:
  "fst (Check strict \<lparr>StateEvents = [createEvent, inviteToken], AuthChain = [createEvent]\<rparr> []) = None \<and>
   fst (checkAllowedByAuthEvents strict joinEvent0
          (indexByID [createEvent, inviteToken] Map.empty) []) =
     Some (NotAuthorized ''$join'' ''sender is not invited'') \<and>
   fst (SendJoinCheck strict
          \<lparr>StateEvents = [createEvent, inviteToken], AuthChain = [createEvent], Origin = ''example.org''\<rparr>
          joinEvent0 []) =
     Some (Propagated ''malformed third party invite'')"
  by (simp add: SendJoinCheck_def ToRespState_def Check_def strict_def createEvent_def
      inviteToken_def joinEvent0_def indexByID_def checkAllowedByAuthEvents_def)

theorem SendJoinCheck_order_witness:
  "fst (Check strict (ToRespState
          \<lparr>StateEvents = [createEvent, inviteToken], AuthChain = [createEvent], Origin = ''example.org''\<rparr>) []) = None \<and>
   accumulate strict (NewAuthEvents strict) [createEvent, inviteToken] =
     Inl ''malformed third party invite'' \<and>
   SendJoinCheck strict
     \<lparr>StateEvents = [createEvent, inviteToken], AuthChain = [createEvent], Origin = ''example.org''\<rparr>
     joinEvent0 [] =
     (Some (Propagated ''malformed third party invite''),
      snd (Check strict (ToRespState
          \<lparr>StateEvents = [createEvent, inviteToken], AuthChain = [createEvent], Origin = ''example.org''\<rparr>) []) @
      [Add [] createEvent, Add [createEvent] inviteToken]) \<and>
   fst (Check strict (ToRespState
          \<lparr>StateEvents = [createEvent, banEvent], AuthChain = [createEvent], Origin = ''example.org''\<rparr>) []) = None \<and>
   accumulate strict (NewAuthEvents strict) [createEvent, banEvent] = Inr [createEvent, banEvent] \<and>
   checkAllowedByAuthEvents strict joinEvent0 (indexByID [createEvent, banEvent] Map.empty) [] =
     (Some (NotAuthorized ''$join'' ''sender is not invited''),
      [Add [] createEvent, Allow joinEvent0 [createEvent]]) \<and>
   SendJoinCheck strict
     \<lparr>StateEvents = [createEvent, banEvent], AuthChain = [createEvent], Origin = ''example.org''\<rparr>
     joinEvent0 [] =
     (Some (NotAuthorized ''$join'' ''sender is not invited''),
      snd (Check strict (ToRespState
          \<lparr>StateEvents = [createEvent, banEvent], AuthChain = [createEvent], Origin = ''example.org''\<rparr>) []) @
      [Add [] createEvent, Add [createEvent] banEvent] @
      [Add [] createEvent, Allow joinEvent0 [createEvent]])"
proof -
  let ?r = "\<lparr>StateEvents = [createEvent, inviteToken], AuthChain = [createEvent], Origin = ''example.org''\<rparr>"
  let ?r' = "\<lparr>StateEvents = [createEvent, banEvent], AuthChain = [createEvent], Origin = ''example.org''\<rparr>"
  have pass: "fst (Check strict (ToRespState ?r) []) = None"
    by (simp add: ToRespState_def Check_def strict_def createEvent_def inviteToken_def
        indexByID_def checkAllowedByAuthEvents_def)
  then have run: "Check strict (ToRespState ?r) [] = (None, snd (Check strict (ToRespState ?r) []))"
    by (metis prod.collapse)
  have rejected: "accumulate strict (NewAuthEvents strict) (StateEvents ?r) =
     Inl ''malformed third party invite''"
    by (simp add: strict_def createEvent_def inviteToken_def)
  have adds: "addCalls strict (NewAuthEvents strict) (StateEvents ?r) =
     [Add [] createEvent, Add [createEvent] inviteToken]"
    by (simp add: strict_def createEvent_def inviteToken_def)
  have pass': "fst (Check strict (ToRespState ?r') []) = None"
    by (simp add: ToRespState_def Check_def strict_def createEvent_def banEvent_def
        indexByID_def checkAllowedByAuthEvents_def)
  then have run': "Check strict (ToRespState ?r') [] = (None, snd (Check strict (ToRespState ?r') []))"
    by (metis prod.collapse)
  have accepted: "accumulate strict (NewAuthEvents strict) (StateEvents ?r') = Inr [createEvent, banEvent]"
    by (simp add: strict_def createEvent_def banEvent_def)
  have adds': "addCalls strict (NewAuthEvents strict) (StateEvents ?r') =
     [Add [] createEvent, Add [createEvent] banEvent]"
    by (simp add: strict_def createEvent_def banEvent_def)
  have own: "checkAllowedByAuthEvents strict joinEvent0 (indexByID (StateEvents ?r') Map.empty) [] =
     (Some (NotAuthorized ''$join'' ''sender is not invited''),
      [Add [] createEvent, Allow joinEvent0 [createEvent]])"
    by (simp add: strict_def createEvent_def banEvent_def joinEvent0_def indexByID_def
        checkAllowedByAuthEvents_def)
  from SendJoinCheck_order [of strict ?r "[]" _ joinEvent0] run rejected
  have first: "SendJoinCheck strict ?r joinEvent0 [] =
     (Some (Propagated ''malformed third party invite''),
      snd (Check strict (ToRespState ?r) []) @ [Add [] createEvent, Add [createEvent] inviteToken])"
    unfolding adds by blast
  from SendJoinCheck_order [of strict ?r' "[]" _ joinEvent0] run' accepted own
  have second: "SendJoinCheck strict ?r' joinEvent0 [] =
     (Some (NotAuthorized ''$join'' ''sender is not invited''),
      snd (Check strict (ToRespState ?r') []) @ [Add [] createEvent, Add [createEvent] banEvent] @
      [Add [] createEvent, Allow joinEvent0 [createEvent]])"
    unfolding adds' by blast
  from pass rejected first pass' accepted own second show ?thesis
    by simp
qed

text \<open>
  C8. In a validation of a join response in which the checks of the state response pass,
  the builder accepts every state event, giving the authorization set \<open>authEvents\<close>, and
  the join event passes the check against its own authorization events, a rejection of
  the join event by the evaluator against \<open>authEvents\<close> makes \<open>RespSendJoin.Check\<close> fail
  with \<open>NotAuthorizedBySuppliedState\<close>, carrying the identifier of the join event and the
  evaluator's reason, not with \<open>NotAuthorized\<close>.
\<close>

theorem SendJoinCheck_supplied_state:
  assumes pass: "fst (Check c (ToRespState r) log) = None"
    and built: "accumulate c (NewAuthEvents c) (StateEvents r) = Inr authEvents"
    and own: "fst (checkAllowedByAuthEvents c joinEvent (indexByID (StateEvents r) Map.empty) []) = None"
    and rejected: "Allowed c joinEvent authEvents = Some reason"
  shows "fst (SendJoinCheck c r joinEvent log) =
           Some (NotAuthorizedBySuppliedState (EventID joinEvent) reason)"
  using built own rejected by (simp add: SendJoinCheck_fst [OF pass])

theorem SendJoinCheck_supplied_state_witness:
  "fst (Check ledger (ToRespState
          \<lparr>StateEvents = [createEvent, banEvent], AuthChain = [createEvent], Origin = ''example.org''\<rparr>) []) = None \<and>
   accumulate ledger (NewAuthEvents ledger) [createEvent, banEvent] = Inr [createEvent, banEvent] \<and>
   fst (checkAllowedByAuthEvents ledger joinEvent0 (indexByID [createEvent, banEvent] Map.empty) []) = None \<and>
   Allowed ledger joinEvent0 [createEvent, banEvent] = Some ''user is banned'' \<and>
   fst (SendJoinCheck ledger
          \<lparr>StateEvents = [createEvent, banEvent], AuthChain = [createEvent], Origin = ''example.org''\<rparr>
          joinEvent0 []) =
     Some (NotAuthorizedBySuppliedState ''$join'' ''user is banned'')"
proof -
  let ?r = "\<lparr>StateEvents = [createEvent, banEvent], AuthChain = [createEvent], Origin = ''example.org''\<rparr>"
  have pass: "fst (Check ledger (ToRespState ?r) []) = None"
    by (simp add: ToRespState_def Check_def ledger_def createEvent_def banEvent_def
        indexByID_def checkAllowedByAuthEvents_def)
  have built: "accumulate ledger (NewAuthEvents ledger) (StateEvents ?r) = Inr [createEvent, banEvent]"
    by (simp add: ledger_def)
  have own: "fst (checkAllowedByAuthEvents ledger joinEvent0 (indexByID (StateEvents ?r) Map.empty) []) = None"
    by (simp add: ledger_def createEvent_def banEvent_def joinEvent0_def indexByID_def
        checkAllowedByAuthEvents_def)
  have rejected: "Allowed ledger joinEvent0 [createEvent, banEvent] = Some ''user is banned''"
    by (simp add: ledger_def joinEvent0_def)
  from SendJoinCheck_supplied_state [OF pass built own rejected]
  have "fst (SendJoinCheck ledger ?r joinEvent0 []) =
     Some (NotAuthorizedBySuppliedState ''$join'' ''user is banned'')"
    by (simp add: joinEvent0_def)
  with pass built own rejected show ?thesis
    by simp
qed

text \<open>
  C10, amended. In \<open>RespSendJoin.Check\<close> the join event is checked against an index of
  the state events only. In a validation that reaches this check (the checks of the
  state response pass and the builder accepts every state event), let a reference of the
  join event name no state event, while every reference before it names a state event
  and the builder accepts these. Then the validation fails with \<open>MissingAuthEvent\<close>
  naming the reference and the join event, whether or not the authorization chain of the
  response holds the event; in the witness it does. The references are looked up in
  order and the first absent one is reported: in the counterexample the join event
  depends on two events that are in the authorization chain only, and the error names
  the first, not the second.
\<close>

theorem SendJoinCheck_state_index_only:
  assumes pass: "fst (Check c (ToRespState r) log) = None"
    and built: "accumulate c (NewAuthEvents c) (StateEvents r) = Inr authEvents"
    and deps: "AuthEvents joinEvent = before @ d # after"
    and found: "\<forall>ref\<in>set before. ref_EventID ref \<in> EventID ` set (StateEvents r)"
    and accepted: "accumulate c (NewAuthEvents c)
        (map (\<lambda>ref. the (indexByID (StateEvents r) Map.empty (ref_EventID ref))) before) = Inr own"
    and absent: "ref_EventID d \<notin> EventID ` set (StateEvents r)"
  shows "fst (SendJoinCheck c r joinEvent log) =
           Some (MissingAuthEvent (ref_EventID d) (EventID joinEvent))"
proof -
  let ?byID = "indexByID (StateEvents r) Map.empty"
  from found have "\<forall>ref\<in>set before. ?byID (ref_EventID ref) \<noteq> None"
    by (simp add: indexByID_None)
  moreover from absent have "?byID (ref_EventID d) = None"
    by (simp add: indexByID_None)
  ultimately have "fst (checkAllowedByAuthEvents c joinEvent ?byID []) =
      Some (MissingAuthEvent (ref_EventID d) (EventID joinEvent))"
    using deps accepted by (intro checkAllowedByAuthEvents_missing)
  with built show ?thesis
    by (simp add: SendJoinCheck_fst [OF pass])
qed

theorem SendJoinCheck_state_index_only_counterexample:
  "\<lparr>ref_EventID = ''$power2'', ref_EventSHA256 = ''''\<rparr> \<in> set (AuthEvents twoPowerJoin) \<and>
   ''$power2'' \<in> EventID ` set [createEvent, powerOld, powerNew] \<and>
   ''$power2'' \<notin> EventID ` set [createEvent] \<and>
   fst (Check accept (ToRespState
          \<lparr>StateEvents = [createEvent], AuthChain = [createEvent, powerOld, powerNew],
             Origin = ''example.org''\<rparr>) []) = None \<and>
   fst (SendJoinCheck accept
          \<lparr>StateEvents = [createEvent], AuthChain = [createEvent, powerOld, powerNew],
             Origin = ''example.org''\<rparr>
          twoPowerJoin []) =
     Some (MissingAuthEvent ''$power1'' ''$join'')"
  by (simp add: SendJoinCheck_def ToRespState_def Check_def accept_def createEvent_def
      powerOld_def powerNew_def twoPowerJoin_def indexByID_def checkAllowedByAuthEvents_def)

theorem SendJoinCheck_state_index_only_witness:
  "fst (Check accept (ToRespState
          \<lparr>StateEvents = [createEvent], AuthChain = [createEvent, powerOld], Origin = ''example.org''\<rparr>) []) = None \<and>
   ''$power1'' \<in> EventID ` set [createEvent, powerOld] \<and>
   ''$power1'' \<notin> EventID ` set [createEvent] \<and>
   fst (SendJoinCheck accept
          \<lparr>StateEvents = [createEvent], AuthChain = [createEvent, powerOld], Origin = ''example.org''\<rparr>
          powerJoin []) =
     Some (MissingAuthEvent ''$power1'' ''$join'')"
proof -
  let ?r = "\<lparr>StateEvents = [createEvent], AuthChain = [createEvent, powerOld], Origin = ''example.org''\<rparr>"
  let ?before = "[\<lparr>ref_EventID = ''$create'', ref_EventSHA256 = ''''\<rparr>]"
  let ?d = "\<lparr>ref_EventID = ''$power1'', ref_EventSHA256 = ''''\<rparr>"
  have pass: "fst (Check accept (ToRespState ?r) []) = None"
    by (simp add: ToRespState_def Check_def accept_def createEvent_def powerOld_def
        indexByID_def checkAllowedByAuthEvents_def)
  have built: "accumulate accept (NewAuthEvents accept) (StateEvents ?r) = Inr ()"
    by (simp add: accept_def)
  have deps: "AuthEvents powerJoin = ?before @ ?d # []"
    by (simp add: powerJoin_def)
  have found: "\<forall>ref\<in>set ?before. ref_EventID ref \<in> EventID ` set (StateEvents ?r)"
    by (simp add: createEvent_def)
  have accepted: "accumulate accept (NewAuthEvents accept)
        (map (\<lambda>ref. the (indexByID (StateEvents ?r) Map.empty (ref_EventID ref))) ?before) = Inr ()"
    by (simp add: accept_def)
  have absent: "ref_EventID ?d \<notin> EventID ` set (StateEvents ?r)"
    by (simp add: createEvent_def)
  have chain: "''$power1'' \<in> EventID ` set [createEvent, powerOld]"
    by (simp add: powerOld_def)
  from SendJoinCheck_state_index_only [OF pass built deps found accepted absent]
  have "fst (SendJoinCheck accept ?r powerJoin []) = Some (MissingAuthEvent ''$power1'' ''$join'')"
    by (simp add: powerJoin_def)
  with pass chain absent show ?thesis
    by simp
qed

section \<open>Properties of \<^verbatim>\<open>RespInvite\<close>\<close>

text \<open>
  C9, amended. \<open>MarshalJSON\<close> encodes the response as the array of two elements whose
  first element is the number 200 and whose second element is the object with the single
  key \<^verbatim>\<open>event\<close> holding the encoded event. \<open>UnmarshalJSON\<close> accepts this document whenever
  the decoder of the fields accepts that object, and rejects an array of any length other
  than two with the invalid-length error carrying the length. It never reads the first
  element: a two-element array is accepted on its second element alone, so documents
  that do not start with 200 are accepted as well, as the counterexample shows.
\<close>

theorem RespInvite_wire_format:
  "(marshalEvent (InviteEvent r) = Inr event \<longrightarrow>
      MarshalJSON marshalEvent r = Inr (JArray [JNumber 200, JObject [(''event'', event)]])) \<and>
   (unmarshalFields second = Inr decoded \<longrightarrow>
      UnmarshalJSON unmarshalFields (JArray [first, second]) = Inr \<lparr>InviteEvent = decoded\<rparr>) \<and>
   (marshalEvent (InviteEvent r) = Inr event \<and>
    unmarshalFields (JObject [(''event'', event)]) = Inr (InviteEvent r) \<longrightarrow>
      (\<exists>data. MarshalJSON marshalEvent r = Inr data \<and> UnmarshalJSON unmarshalFields data = Inr r)) \<and>
   (length elements \<noteq> 2 \<longrightarrow>
      UnmarshalJSON unmarshalFields (JArray elements) = Inl (InvalidInviteLength (length elements)))"
  by (simp add: MarshalJSON_def UnmarshalJSON_def unmarshalTuple_def)

theorem RespInvite_wire_format_counterexample:
  "UnmarshalJSON decodeID (JArray [JString ''not 200'', JObject [(''event'', JString ''$invite'')]]) =
     Inr \<lparr>InviteEvent = invite\<rparr>"
  by (simp add: UnmarshalJSON_def unmarshalTuple_def decodeID_def invite_def)

theorem RespInvite_wire_format_witness:
  "encodeID invite = Inr (JString ''$invite'') \<and>
   MarshalJSON encodeID \<lparr>InviteEvent = invite\<rparr> =
     Inr (JArray [JNumber 200, JObject [(''event'', JString ''$invite'')]]) \<and>
   decodeID (JObject [(''event'', JString ''$invite'')]) = Inr invite \<and>
   UnmarshalJSON decodeID (JArray [JNumber 200, JObject [(''event'', JString ''$invite'')]]) =
     Inr \<lparr>InviteEvent = invite\<rparr> \<and>
   (\<exists>data. MarshalJSON encodeID \<lparr>InviteEvent = invite\<rparr> = Inr data \<and>
      UnmarshalJSON decodeID data = Inr \<lparr>InviteEvent = invite\<rparr>) \<and>
   UnmarshalJSON decodeID (JArray [JNumber 200]) = Inl (InvalidInviteLength 1) \<and>
   UnmarshalJSON decodeID (JArray [JNumber 200, JNull, JNull]) = Inl (InvalidInviteLength 3) \<and>
   UnmarshalJSON decodeID (JArray []) = Inl (InvalidInviteLength 0)"
proof -
  let ?fields = "JObject [(''event'', JString ''$invite'')]"
  let ?r = "\<lparr>InviteEvent = invite\<rparr>"
  have enc: "encodeID (InviteEvent ?r) = Inr (JString ''$invite'')"
    by (simp add: encodeID_def invite_def)
  have dec: "decodeID ?fields = Inr invite"
    by (simp add: decodeID_def invite_def)
  note main = RespInvite_wire_format [of encodeID ?r "JString ''$invite''" decodeID ?fields invite "JNumber 200"]
  from main [of "[JNumber 200]"] enc dec
  have "MarshalJSON encodeID ?r = Inr (JArray [JNumber 200, ?fields])"
    and "UnmarshalJSON decodeID (JArray [JNumber 200, ?fields]) = Inr ?r"
    and "\<exists>data. MarshalJSON encodeID ?r = Inr data \<and> UnmarshalJSON decodeID data = Inr ?r"
    and "UnmarshalJSON decodeID (JArray [JNumber 200]) = Inl (InvalidInviteLength 1)"
    by simp_all
  moreover from main [of "[JNumber 200, JNull, JNull]"]
  have "UnmarshalJSON decodeID (JArray [JNumber 200, JNull, JNull]) = Inl (InvalidInviteLength 3)"
    by simp
  moreover from main [of "[]"]
  have "UnmarshalJSON decodeID (JArray []) = Inl (InvalidInviteLength 0)"
    by simp
  ultimately show ?thesis
    using enc dec by simp
qed

end
